theory Spec2Isabelle
  imports Main
begin

section \<open>Bytes, C strings and the pattern matcher\<close>

text \<open>
  The input file, the pipe payloads and the carry buffer are byte sequences; a byte is a
  \<^typ>\<open>char\<close>, a buffer together with its length field is a \<^typ>\<open>string\<close>.
  Offsets (\<open>long\<close>) and sizes (\<open>size_t\<close>) are natural numbers: every offset the
  program computes is bounded by the length of the input file, so no wrap-around arises.
\<close>

definition NL :: char where
  "NL = CHR 0x0A"

definition NUL :: char where
  "NUL = CHR 0x00"

definition BUFFER_SIZE :: nat where
  "BUFFER_SIZE = 8192"

definition MAX_PROCESSES :: nat where
  "MAX_PROCESSES = 32"

text \<open>
  \<open>printf("%s", p)\<close> and \<open>regexec(regex, p, ...)\<close> read the bytes at \<open>p\<close> up to the
  first NUL byte. The source writes a NUL at the end of the span before both calls, so
  they see \<open>c_str span\<close>.
\<close>

definition c_str :: "string \<Rightarrow> string" where
  "c_str s = takeWhile (\<lambda>c. c \<noteq> NUL) s"

text \<open>
  The compiled pattern (\<open>regcomp\<close> of the wrapped expression, then \<open>regexec(...) == 0\<close>)
  is library code: it is a parameter \<open>rx\<close> of type \<^typ>\<open>string \<Rightarrow> bool\<close>, applied to
  the C string. For the scenario with the literal pattern \<open>alpha\<close> the matcher below is
  used: the wrapped expression \<open>(^|[^[:alnum:]_])(w)([^[:alnum:]_]|$)\<close> of a literal
  word \<open>w\<close> accepts a string iff \<open>w\<close> occurs in it neither preceded nor followed by an
  alphanumeric byte or an underscore.
\<close>

definition word_byte :: "char \<Rightarrow> bool" where
  "word_byte c \<longleftrightarrow>
     (let k = (of_char c :: nat)
      in (97 \<le> k \<and> k \<le> 122) \<or> (65 \<le> k \<and> k \<le> 90) \<or> (48 \<le> k \<and> k \<le> 57) \<or> k = 95)"

fun literal_at :: "string \<Rightarrow> string \<Rightarrow> bool" where
  "literal_at [] s = (case s of [] \<Rightarrow> True | c # _ \<Rightarrow> \<not> word_byte c)"
| "literal_at (w # ws) [] = False"
| "literal_at (w # ws) (c # cs) = (w = c \<and> literal_at ws cs)"

fun literal_scan :: "string \<Rightarrow> bool \<Rightarrow> string \<Rightarrow> bool" where
  "literal_scan w boundary [] = (boundary \<and> literal_at w [])"
| "literal_scan w boundary (c # cs) =
     ((boundary \<and> literal_at w (c # cs)) \<or> literal_scan w (\<not> word_byte c) cs)"

definition literal_word_match :: "string \<Rightarrow> string \<Rightarrow> bool" where
  "literal_word_match w s = literal_scan w True s"

section \<open>The growable byte buffer\<close>

text \<open>\<open>string_buffer_append(buf, data, len)\<close> copies \<open>len\<close> bytes of \<open>data\<close> behind the content.\<close>

definition string_buffer_append :: "string \<Rightarrow> string \<Rightarrow> nat \<Rightarrow> string" where
  "string_buffer_append buf data len = buf @ take len data"

text \<open>\<open>string_buffer_consume(buf, len)\<close>: clear when \<open>len >= length\<close>, else shift left.\<close>

definition string_buffer_consume :: "string \<Rightarrow> nat \<Rightarrow> string" where
  "string_buffer_consume buf len = (if len \<ge> length buf then [] else drop len buf)"

section \<open>The record extractor\<close>

text \<open>
  \<open>find_double_newline(data, len)\<close>: the first index \<open>i\<close> with \<open>i + 1 < len\<close> and two
  line delimiters at \<open>i\<close> and \<open>i + 1\<close>; the result \<open>-1\<close> is \<open>None\<close>.
\<close>

fun find_double_newline :: "string \<Rightarrow> nat option" where
  "find_double_newline (a # b # rest) =
     (if a = NL \<and> b = NL then Some 0
      else map_option Suc (find_double_newline (b # rest)))"
| "find_double_newline _ = None"

text \<open>
  The result of one call of \<open>process_paragraphs\<close>: the carry buffer it leaves, its return
  value \<open>chunk_match\<close>, the bytes it printed, and (as instrumentation, the source keeps no
  such list) the spans it handed to \<open>regexec\<close>, in order: one per loop iteration that
  found a delimiter pair.
\<close>

record extraction =
  rest :: string
  chunk_match :: bool
  printed :: string
  tested :: "string list"

function process_paragraphs_loop ::
  "(string \<Rightarrow> bool) \<Rightarrow> string \<Rightarrow> bool \<Rightarrow> string \<Rightarrow> string list \<Rightarrow> extraction" where
  "process_paragraphs_loop rx carry found out recs =
     (case find_double_newline carry of
        None \<Rightarrow> \<lparr>rest = carry, chunk_match = found, printed = out, tested = recs\<rparr>
      | Some delim_index \<Rightarrow>
          (let para_len = delim_index;
               para = take para_len carry;
               hit = rx (c_str para);
               consume = para_len + 2
           in process_paragraphs_loop rx (string_buffer_consume carry consume)
                (found \<or> hit)
                (if hit then out @ c_str para @ [NL, NL] else out)
                (recs @ [para])))"
  by pat_completeness auto

termination process_paragraphs_loop
proof (relation "measure (\<lambda>(rx, carry, found, out, recs). length carry)")
  show "wf (measure (\<lambda>(rx, carry, found, out, recs). length carry))"
    by simp
next
  fix rx :: "string \<Rightarrow> bool" and carry :: string and found :: bool
    and out :: string and recs :: "string list"
    and x2 :: nat and x xa xb xc
  assume found_at: "find_double_newline carry = Some x2" and "xc = x + 2" and "x = x2"
  have "find_double_newline s = Some i \<Longrightarrow> i + 2 \<le> length s" for s i
    by (induction s arbitrary: i rule: find_double_newline.induct)
       (auto split: if_splits)
  with found_at have "x2 + 2 \<le> length carry"
    by simp
  then show "((rx, string_buffer_consume carry xc, found \<or> xb,
              if xb then out @ c_str xa @ [NL, NL] else out, recs @ [xa]),
             (rx, carry, found, out, recs))
           \<in> measure (\<lambda>(rx, carry, found, out, recs). length carry)"
    using \<open>xc = x + 2\<close> \<open>x = x2\<close> by (auto simp add: string_buffer_consume_def)
qed

declare process_paragraphs_loop.simps [simp del]

definition process_paragraphs :: "(string \<Rightarrow> bool) \<Rightarrow> string \<Rightarrow> extraction" where
  "process_paragraphs rx carry = process_paragraphs_loop rx carry False [] []"

text \<open>
  \<open>flush_remaining_paragraph\<close>: nothing on an empty buffer; else the whole content is
  one last record, printed on a match with a line delimiter added when the last byte is
  not one, and the buffer is cleared.
\<close>

definition flush_remaining_paragraph :: "(string \<Rightarrow> bool) \<Rightarrow> string \<Rightarrow> extraction" where
  "flush_remaining_paragraph rx carry =
     (if length carry = 0
      then \<lparr>rest = carry, chunk_match = False, printed = [], tested = []\<rparr>
      else
        (let match = rx (c_str carry)
         in \<lparr>rest = [],
             chunk_match = match,
             printed =
               (if match
                then c_str carry @
                  (if length carry = 0 \<or> carry ! (length carry - 1) \<noteq> NL then [NL] else [])
                else []),
             tested = [carry]\<rparr>))"

section \<open>Line-boundary trimming\<close>

text \<open>
  The scan both the coordinator (lines 397 to 402) and the worker (lines 248 to 253) run:
  \<open>for (j = n; j > 0; --j) if (buf[j - 1] == '\n') { last_newline = j; break; }\<close>.
  \<open>Some j\<close> is the assignment in the loop, \<open>None\<close> a scan that ends without one.
\<close>

fun scan_last_newline :: "string \<Rightarrow> nat \<Rightarrow> nat option" where
  "scan_last_newline buf 0 = None"
| "scan_last_newline buf (Suc j) =
     (if buf ! j = NL then Some (Suc j) else scan_last_newline buf j)"

text \<open>The coordinator's byte count for the window \<open>tempbuf\<close> it read (lines 396 to 405).\<close>

definition assign_bytes :: "string \<Rightarrow> nat" where
  "assign_bytes tempbuf =
     (let read_bytes = length tempbuf;
          last_newline = (case scan_last_newline tempbuf read_bytes of
                            Some j \<Rightarrow> j | None \<Rightarrow> read_bytes);
          bytes = (if last_newline < read_bytes then last_newline else read_bytes)
      in if bytes = 0 then read_bytes else bytes)"

text \<open>The worker's usable byte count for the bytes \<open>buffer\<close> it read (lines 245 to 255).\<close>

definition trim_to_last_newline :: "string \<Rightarrow> nat" where
  "trim_to_last_newline buffer =
     (let read_bytes = length buffer
      in if read_bytes > 0
         then (let last_newline = (case scan_last_newline buffer read_bytes of
                                     Some j \<Rightarrow> j | None \<Rightarrow> 0)
               in if last_newline > 0 then last_newline else read_bytes)
         else read_bytes)"

text \<open>Line 256: \<open>if (usable == 0 && read_bytes > 0) usable = read_bytes;\<close>\<close>

definition forward_progress :: "nat \<Rightarrow> nat \<Rightarrow> nat" where
  "forward_progress usable read_bytes =
     (if usable = 0 \<and> read_bytes > 0 then read_bytes else usable)"

definition child_usable :: "string \<Rightarrow> nat" where
  "child_usable buffer = forward_progress (trim_to_last_newline buffer) (length buffer)"

section \<open>Chunks and the reorder buffer\<close>

text \<open>
  A \<open>ChunkNode\<close>; the list links (\<open>next\<close>) are the list structure, and \<open>text_length\<close>
  is the length of the field \<open>text\<close>, here \<open>text_bytes\<close>. The elapsed time is a clock reading the program only
  copies: its type is a parameter.
\<close>

record 't ChunkNode =
  process_id :: nat
  file_offset :: nat
  bytes_read :: nat
  elapsed_time :: 't
  text_bytes :: string

text \<open>
  One assignment as a worker serves it (\<open>child_process\<close>, lines 240 to 265): seek, read
  up to \<open>bytes\<close> bytes, trim, and send the payload header and \<open>usable\<close> bytes, which
  \<open>create_chunk\<close> copies into a node on the coordinator's side.
\<close>

definition child_process :: "string \<Rightarrow> nat \<Rightarrow> nat \<Rightarrow> nat \<Rightarrow> 't \<Rightarrow> 't ChunkNode" where
  "child_process file ident offset bytes elapsed =
     (let buffer = take bytes (drop offset file);
          usable = child_usable buffer
      in \<lparr>process_id = ident, file_offset = offset, bytes_read = usable,
          elapsed_time = elapsed, text_bytes = take usable buffer\<rparr>)"

fun insert_after :: "'t ChunkNode \<Rightarrow> 't ChunkNode list \<Rightarrow> 't ChunkNode list" where
  "insert_after node [] = [node]"
| "insert_after node (nxt # others) =
     (if file_offset nxt < file_offset node then nxt # insert_after node others
      else node # nxt # others)"

fun insert_chunk_sorted :: "'t ChunkNode list \<Rightarrow> 't ChunkNode \<Rightarrow> 't ChunkNode list" where
  "insert_chunk_sorted [] node = [node]"
| "insert_chunk_sorted (h # others) node =
     (if file_offset node < file_offset h then node # h # others
      else h # insert_after node others)"

fun pop_expected_chunk ::
  "'t ChunkNode list \<Rightarrow> nat \<Rightarrow> ('t ChunkNode \<times> 't ChunkNode list) option" where
  "pop_expected_chunk [] expected_offset = None"
| "pop_expected_chunk (h # others) expected_offset =
     (if file_offset h \<noteq> expected_offset then None else Some (h, others))"

section \<open>The run log\<close>

record 't log_entry =
  log_process_id :: nat
  log_file_offset :: nat
  log_bytes_read :: nat
  log_elapsed_time :: 't
  log_found :: bool

definition write_log_entry ::
  "'t log_entry list \<Rightarrow> nat \<Rightarrow> nat \<Rightarrow> nat \<Rightarrow> 't \<Rightarrow> bool \<Rightarrow> 't log_entry list" where
  "write_log_entry logfile pid offset nbytes elapsed found =
     logfile @ [\<lparr>log_process_id = pid, log_file_offset = offset, log_bytes_read = nbytes,
                 log_elapsed_time = elapsed, log_found = found\<rparr>]"

section \<open>The coordinator and its workers\<close>

text \<open>
  What worker \<open>i\<close> puts next on its pipe to the coordinator, as \<open>child_process\<close> fixes it:
  a request; the result of the assignment \<open>(offset, bytes)\<close> it was sent, and a request
  after it; end of file once it was sent the end flag. \<open>Gone\<close>: the coordinator has seen
  the end of file and closed its side (\<open>pipes_out[i][0] = -1\<close>). \<open>Blocked\<close>: the worker
  waits for a reply to a request the coordinator did not answer.
\<close>

datatype worker = Requesting | Reporting nat nat | Exiting | Gone | Blocked

record 't coordinator =
  num_procs :: nat
  next_offset_to_assign :: nat
  next_offset_to_process :: nat
  pending_chunks :: "'t ChunkNode list"
  carry :: string
  finished_assignments :: bool
  finished_children :: nat
  end_sent :: "nat \<Rightarrow> bool"
  workers :: "nat \<Rightarrow> worker"
  logfile :: "'t log_entry list"
  stdout :: string
  candidates :: "string list"

text \<open>
  The loop of lines 424 to 435, which lines 442 to 453 repeat: pop the chunk at the
  expected offset, append its text to the carry buffer, extract, write one log entry,
  advance \<open>next_offset_to_process\<close>. \<open>candidates\<close> collects the spans tested.
\<close>

definition consume_chunk ::
  "(string \<Rightarrow> bool) \<Rightarrow> 't ChunkNode \<Rightarrow> 't coordinator \<Rightarrow> 't coordinator" where
  "consume_chunk rx ready s =
     (let appended = (if length (text_bytes ready) > 0
                      then string_buffer_append (carry s) (text_bytes ready) (length (text_bytes ready))
                      else carry s);
          r = process_paragraphs rx appended
      in s\<lparr>carry := rest r,
           stdout := stdout s @ printed r,
           candidates := candidates s @ tested r,
           logfile := write_log_entry (logfile s) (process_id ready) (file_offset ready)
                        (bytes_read ready) (elapsed_time ready) (chunk_match r),
           next_offset_to_process := file_offset ready + bytes_read ready\<rparr>)"

function drain_ready :: "(string \<Rightarrow> bool) \<Rightarrow> 't coordinator \<Rightarrow> 't coordinator" where
  "drain_ready rx s =
     (case pop_expected_chunk (pending_chunks s) (next_offset_to_process s) of
        None \<Rightarrow> s
      | Some (ready, remaining) \<Rightarrow>
          drain_ready rx (consume_chunk rx ready (s\<lparr>pending_chunks := remaining\<rparr>)))"
  by pat_completeness auto

termination drain_ready
proof (relation "measure (\<lambda>(rx, s). length (pending_chunks s))")
  show "wf (measure (\<lambda>(rx, s). length (pending_chunks s)))"
    by simp
next
  fix rx :: "string \<Rightarrow> bool" and s :: "'t coordinator" and x2 x y
  assume "pop_expected_chunk (pending_chunks s) (next_offset_to_process s) = Some x2"
    and "(x, y) = x2"
  then have "pending_chunks s = x # y"
    by (cases "pending_chunks s") (auto split: if_splits)
  then show "((rx, consume_chunk rx x (s\<lparr>pending_chunks := y\<rparr>)), (rx, s))
           \<in> measure (\<lambda>(rx, s). length (pending_chunks s))"
    by (simp add: consume_chunk_def Let_def)
qed

declare drain_ready.simps [simp del]

text \<open>The end flag for worker \<open>i\<close>, sent at most once (lines 376 to 380 and 389 to 393).\<close>

definition send_end :: "nat \<Rightarrow> 't coordinator \<Rightarrow> 't coordinator" where
  "send_end i s =
     (if \<not> end_sent s i
      then s\<lparr>end_sent := (end_sent s)(i := True), workers := (workers s)(i := Exiting)\<rparr>
      else s\<lparr>workers := (workers s)(i := Blocked)\<rparr>)"

text \<open>A \<open>MSG_REQUEST\<close> of worker \<open>i\<close> (lines 372 to 411): the work distributor.\<close>

definition handle_request :: "string \<Rightarrow> nat \<Rightarrow> 't coordinator \<Rightarrow> 't coordinator" where
  "handle_request file i s =
     (if finished_assignments s then send_end i s
      else
        (let tempbuf = take BUFFER_SIZE (drop (next_offset_to_assign s) file);
             read_bytes = length tempbuf
         in if read_bytes = 0 then send_end i (s\<lparr>finished_assignments := True\<rparr>)
            else
              (let bytes = assign_bytes tempbuf;
                   assigned_offset = next_offset_to_assign s
               in s\<lparr>next_offset_to_assign := next_offset_to_assign s + bytes,
                    workers := (workers s)(i := Reporting assigned_offset bytes)\<rparr>)))"

text \<open>
  A \<open>MSG_RESULT\<close> of worker \<open>i\<close> (lines 412 to 435), which answers the assignment
  \<open>(offset, bytes)\<close> and took \<open>elapsed\<close>: insert the chunk, drain what is contiguous.
\<close>

definition handle_result ::
  "string \<Rightarrow> (string \<Rightarrow> bool) \<Rightarrow> nat \<Rightarrow> nat \<Rightarrow> nat \<Rightarrow> 't \<Rightarrow> 't coordinator \<Rightarrow> 't coordinator" where
  "handle_result file rx i offset bytes elapsed s =
     (let node = child_process file i offset bytes elapsed
      in drain_ready rx
           (s\<lparr>pending_chunks := insert_chunk_sorted (pending_chunks s) node,
              workers := (workers s)(i := Requesting)\<rparr>))"

text \<open>End of file on the pipe of worker \<open>i\<close> (lines 365 to 370).\<close>

definition handle_eof :: "nat \<Rightarrow> 't coordinator \<Rightarrow> 't coordinator" where
  "handle_eof i s =
     s\<lparr>workers := (workers s)(i := Gone), finished_children := finished_children s + 1\<rparr>"

text \<open>
  An event \<open>(i, elapsed)\<close>: the coordinator reads the next message of worker \<open>i\<close>; the
  clock reading is the one the worker measured if the message is a result. Which worker
  is read next is the scheduling of the run.
\<close>

definition handle_message ::
  "string \<Rightarrow> (string \<Rightarrow> bool) \<Rightarrow> nat \<times> 't \<Rightarrow> 't coordinator \<Rightarrow> 't coordinator" where
  "handle_message file rx ev s =
     (case workers s (fst ev) of
        Requesting \<Rightarrow> handle_request file (fst ev) s
      | Reporting offset bytes \<Rightarrow> handle_result file rx (fst ev) offset bytes (snd ev) s
      | Exiting \<Rightarrow> handle_eof (fst ev) s
      | Gone \<Rightarrow> s
      | Blocked \<Rightarrow> s)"

definition readable :: "nat \<times> 't \<Rightarrow> 't coordinator \<Rightarrow> bool" where
  "readable ev s \<longleftrightarrow>
     fst ev < num_procs s \<and> workers s (fst ev) \<noteq> Gone \<and> workers s (fst ev) \<noteq> Blocked"

text \<open>
  The condition of the dispatch loop (line 344), with the exit at line 354 when no
  descriptor is left open.
\<close>

definition loop_continues :: "'t coordinator \<Rightarrow> bool" where
  "loop_continues s \<longleftrightarrow>
     (finished_children s < num_procs s \<or> pending_chunks s \<noteq> []) \<and>
     list_ex (\<lambda>i. workers s i \<noteq> Gone) [0..<num_procs s]"

text \<open>
  The dispatch loop over the messages of a run, in the order the coordinator reads them.
  \<open>None\<close>: the list is not the message sequence of a complete run (the loop still waits
  when the list ends, or the list goes on after the loop has ended, or it names a worker
  with nothing to read).
\<close>

fun dispatch_loop ::
  "string \<Rightarrow> (string \<Rightarrow> bool) \<Rightarrow> (nat \<times> 't) list \<Rightarrow> 't coordinator \<Rightarrow> 't coordinator option" where
  "dispatch_loop file rx [] s = (if loop_continues s then None else Some s)"
| "dispatch_loop file rx (ev # evs) s =
     (if loop_continues s \<and> readable ev s
      then dispatch_loop file rx evs (handle_message file rx ev s)
      else None)"

definition initial :: "nat \<Rightarrow> 't coordinator" where
  "initial n =
     \<lparr>num_procs = n, next_offset_to_assign = 0, next_offset_to_process = 0,
      pending_chunks = [], carry = [], finished_assignments = False,
      finished_children = 0, end_sent = (\<lambda>i. False),
      workers = (\<lambda>i. if i < n then Requesting else Gone),
      logfile = [], stdout = [], candidates = []\<rparr>"

text \<open>The terminal flush of line 455.\<close>

definition terminal_flush :: "(string \<Rightarrow> bool) \<Rightarrow> 't coordinator \<Rightarrow> 't coordinator" where
  "terminal_flush rx s =
     (let r = flush_remaining_paragraph rx (carry s)
      in s\<lparr>carry := rest r, stdout := stdout s @ printed r,
           candidates := candidates s @ tested r\<rparr>)"

datatype failure = Usage_Error | Not_A_Complete_Run

text \<open>
  \<open>main\<close> for the pattern matcher \<open>rx\<close>, the content \<open>file\<close> of the input file,
  \<open>num_procs = n\<close> and the events of the run: the range check of \<open>num_procs\<close>, the
  dispatch loop, the final drain, the terminal flush. \<open>logfile\<close> holds the data
  lines, in the order \<open>write_log_entry\<close> writes them; the header line of line 286 and
  the places where it lands in the file are not modelled.
\<close>

definition main ::
  "(string \<Rightarrow> bool) \<Rightarrow> string \<Rightarrow> nat \<Rightarrow> (nat \<times> 't) list \<Rightarrow> failure + 't coordinator" where
  "main rx file n evs =
     (if n < 1 \<or> n > MAX_PROCESSES then Inl Usage_Error
      else
        (case dispatch_loop file rx evs (initial n) of
           None \<Rightarrow> Inl Not_A_Complete_Run
         | Some s \<Rightarrow> Inr (terminal_flush rx (drain_ready rx s))))"

section \<open>Facts about the record extractor\<close>

lemma find_double_newline_le:
  "find_double_newline s = Some i \<Longrightarrow> i + 2 \<le> length s"
  by (induction s arbitrary: i rule: find_double_newline.induct)
     (auto split: if_splits)

lemma find_double_newline_at:
  "find_double_newline s = Some i \<Longrightarrow> s ! i = NL \<and> s ! Suc i = NL"
  by (induction s arbitrary: i rule: find_double_newline.induct)
     (auto split: if_splits)

lemma find_double_newline_first:
  "find_double_newline s = Some i \<Longrightarrow> j < i \<Longrightarrow> \<not> (s ! j = NL \<and> s ! Suc j = NL)"
proof (induction s arbitrary: i j rule: find_double_newline.induct)
  case (1 a b rest)
  show ?case
  proof (cases j)
    case 0
    with 1 show ?thesis by (auto split: if_splits)
  next
    case (Suc k)
    with 1 show ?thesis by (auto split: if_splits)
  qed
qed simp_all

lemma find_double_newline_none:
  "find_double_newline s = None \<Longrightarrow> Suc j < length s \<Longrightarrow> \<not> (s ! j = NL \<and> s ! Suc j = NL)"
proof (induction s arbitrary: j rule: find_double_newline.induct)
  case (1 a b rest)
  show ?case
  proof (cases j)
    case 0
    with 1 show ?thesis by (auto split: if_splits)
  next
    case (Suc k)
    with 1 show ?thesis by (auto split: if_splits)
  qed
qed simp_all

lemma find_double_newline_append:
  "find_double_newline s = Some i \<Longrightarrow> find_double_newline (s @ t) = Some i"
  by (induction s arbitrary: i rule: find_double_newline.induct)
     (auto split: if_splits)

lemma string_buffer_consume_drop: "string_buffer_consume cb n = drop n cb"
  by (simp add: string_buffer_consume_def)

lemma process_paragraphs_loop_None:
  "find_double_newline cb = None \<Longrightarrow>
   process_paragraphs_loop rx cb found out recs =
     \<lparr>rest = cb, chunk_match = found, printed = out, tested = recs\<rparr>"
  by (subst process_paragraphs_loop.simps) simp

lemma process_paragraphs_loop_Some:
  "find_double_newline cb = Some i \<Longrightarrow>
   process_paragraphs_loop rx cb found out recs =
     process_paragraphs_loop rx (drop (i + 2) cb) (found \<or> rx (c_str (take i cb)))
       (if rx (c_str (take i cb)) then out @ c_str (take i cb) @ [NL, NL] else out)
       (recs @ [take i cb])"
  by (subst process_paragraphs_loop.simps) (simp add: Let_def string_buffer_consume_drop)

lemma process_paragraphs_loop_acc:
  "process_paragraphs_loop rx cb found out recs =
     \<lparr>rest = rest (process_paragraphs rx cb),
      chunk_match = (found \<or> chunk_match (process_paragraphs rx cb)),
      printed = out @ printed (process_paragraphs rx cb),
      tested = recs @ tested (process_paragraphs rx cb)\<rparr>"
proof (induction "length cb" arbitrary: cb found out recs rule: less_induct)
  case less
  show ?case
  proof (cases "find_double_newline cb")
    case None
    then show ?thesis
      by (simp add: process_paragraphs_def process_paragraphs_loop_None)
  next
    case (Some i)
    then have shorter: "length (drop (i + 2) cb) < length cb"
      using find_double_newline_le by fastforce
    let ?hit = "rx (c_str (take i cb))"
    let ?r = "process_paragraphs rx (drop (i + 2) cb)"
    have "process_paragraphs_loop rx cb found out recs =
        process_paragraphs_loop rx (drop (i + 2) cb) (found \<or> ?hit)
          (if ?hit then out @ c_str (take i cb) @ [NL, NL] else out) (recs @ [take i cb])"
      by (rule process_paragraphs_loop_Some [OF Some])
    also have "\<dots> = \<lparr>rest = rest ?r, chunk_match = ((found \<or> ?hit) \<or> chunk_match ?r),
        printed = (if ?hit then out @ c_str (take i cb) @ [NL, NL] else out) @ printed ?r,
        tested = (recs @ [take i cb]) @ tested ?r\<rparr>"
      by (rule less [OF shorter])
    finally have general: "process_paragraphs_loop rx cb found out recs =
        \<lparr>rest = rest ?r, chunk_match = ((found \<or> ?hit) \<or> chunk_match ?r),
         printed = (if ?hit then out @ c_str (take i cb) @ [NL, NL] else out) @ printed ?r,
         tested = (recs @ [take i cb]) @ tested ?r\<rparr>" .
    have "process_paragraphs rx cb =
        process_paragraphs_loop rx (drop (i + 2) cb) (False \<or> ?hit)
          (if ?hit then [] @ c_str (take i cb) @ [NL, NL] else []) ([] @ [take i cb])"
      unfolding process_paragraphs_def by (rule process_paragraphs_loop_Some [OF Some])
    also have "\<dots> = \<lparr>rest = rest ?r, chunk_match = ((False \<or> ?hit) \<or> chunk_match ?r),
        printed = (if ?hit then [] @ c_str (take i cb) @ [NL, NL] else []) @ printed ?r,
        tested = ([] @ [take i cb]) @ tested ?r\<rparr>"
      by (rule less [OF shorter])
    finally have plain: "process_paragraphs rx cb =
        \<lparr>rest = rest ?r, chunk_match = ((False \<or> ?hit) \<or> chunk_match ?r),
         printed = (if ?hit then [] @ c_str (take i cb) @ [NL, NL] else []) @ printed ?r,
         tested = ([] @ [take i cb]) @ tested ?r\<rparr>" .
    show ?thesis
      by (simp add: general plain)
  qed
qed

lemma process_paragraphs_None:
  "find_double_newline cb = None \<Longrightarrow>
   process_paragraphs rx cb = \<lparr>rest = cb, chunk_match = False, printed = [], tested = []\<rparr>"
  by (simp add: process_paragraphs_def process_paragraphs_loop_None)

lemma process_paragraphs_Some:
  "find_double_newline cb = Some i \<Longrightarrow>
   process_paragraphs rx cb =
     \<lparr>rest = rest (process_paragraphs rx (drop (Suc (Suc i)) cb)),
      chunk_match = (rx (c_str (take i cb)) \<or> chunk_match (process_paragraphs rx (drop (Suc (Suc i)) cb))),
      printed = (if rx (c_str (take i cb)) then c_str (take i cb) @ [NL, NL] else []) @
                printed (process_paragraphs rx (drop (Suc (Suc i)) cb)),
      tested = take i cb # tested (process_paragraphs rx (drop (Suc (Suc i)) cb))\<rparr>"
  unfolding process_paragraphs_def
  apply (subst process_paragraphs_loop_Some, assumption)
  apply (subst process_paragraphs_loop_acc)
  apply (simp add: process_paragraphs_def)
  done

lemma process_paragraphs_induct [case_names None Some]:
  assumes "\<And>cb. find_double_newline cb = None \<Longrightarrow> P cb"
    and "\<And>cb i. find_double_newline cb = Some i \<Longrightarrow> P (drop (Suc (Suc i)) cb) \<Longrightarrow> P cb"
  shows "P cb"
proof (induction "length cb" arbitrary: cb rule: less_induct)
  case less
  show ?case
  proof (cases "find_double_newline cb")
    case None
    then show ?thesis by (rule assms(1))
  next
    case (Some i)
    then have "length (drop (Suc (Suc i)) cb) < length cb"
      using find_double_newline_le by fastforce
    then have "P (drop (Suc (Suc i)) cb)" by (rule less)
    with Some show ?thesis by (rule assms(2))
  qed
qed

lemma process_paragraphs_length:
  "2 * length (tested (process_paragraphs rx cb)) + length (rest (process_paragraphs rx cb))
     \<le> length cb"
proof (induction cb rule: process_paragraphs_induct)
  case (None cb)
  then show ?case by (simp add: process_paragraphs_None)
next
  case (Some cb i)
  then show ?case
    using find_double_newline_le [of cb i] by (simp add: process_paragraphs_Some)
qed

lemma process_paragraphs_rest_settled:
  "find_double_newline (rest (process_paragraphs rx cb)) = None"
proof (induction cb rule: process_paragraphs_induct)
  case (None cb)
  then show ?case by (simp add: process_paragraphs_None)
next
  case (Some cb i)
  then show ?case by (simp add: process_paragraphs_Some)
qed

lemma process_paragraphs_append:
  "process_paragraphs rx (cb @ more_bytes) =
     \<lparr>rest = rest (process_paragraphs rx (rest (process_paragraphs rx cb) @ more_bytes)),
      chunk_match = (chunk_match (process_paragraphs rx cb) \<or>
         chunk_match (process_paragraphs rx (rest (process_paragraphs rx cb) @ more_bytes))),
      printed = printed (process_paragraphs rx cb) @
         printed (process_paragraphs rx (rest (process_paragraphs rx cb) @ more_bytes)),
      tested = tested (process_paragraphs rx cb) @
         tested (process_paragraphs rx (rest (process_paragraphs rx cb) @ more_bytes))\<rparr>"
proof (induction cb rule: process_paragraphs_induct)
  case (None cb)
  then show ?case by (simp add: process_paragraphs_None)
next
  case (Some cb i)
  from Some(1) have whole: "find_double_newline (cb @ more_bytes) = Some i"
    by (rule find_double_newline_append)
  from Some(1) have "i + 2 \<le> length cb"
    by (rule find_double_newline_le)
  then have split: "drop (Suc (Suc i)) (cb @ more_bytes) = drop (Suc (Suc i)) cb @ more_bytes"
    "take i (cb @ more_bytes) = take i cb"
    by simp_all
  let ?d = "drop (Suc (Suc i)) cb"
  let ?after = "process_paragraphs rx (rest (process_paragraphs rx ?d) @ more_bytes)"
  have ih: "rest (process_paragraphs rx (?d @ more_bytes)) = rest ?after"
    "chunk_match (process_paragraphs rx (?d @ more_bytes)) =
       (chunk_match (process_paragraphs rx ?d) \<or> chunk_match ?after)"
    "printed (process_paragraphs rx (?d @ more_bytes)) =
       printed (process_paragraphs rx ?d) @ printed ?after"
    "tested (process_paragraphs rx (?d @ more_bytes)) =
       tested (process_paragraphs rx ?d) @ tested ?after"
    by (subst Some(2), simp)+
  have "process_paragraphs rx (cb @ more_bytes) =
     \<lparr>rest = rest (process_paragraphs rx (?d @ more_bytes)),
      chunk_match = (rx (c_str (take i cb)) \<or> chunk_match (process_paragraphs rx (?d @ more_bytes))),
      printed = (if rx (c_str (take i cb)) then c_str (take i cb) @ [NL, NL] else []) @
                printed (process_paragraphs rx (?d @ more_bytes)),
      tested = take i cb # tested (process_paragraphs rx (?d @ more_bytes))\<rparr>"
    using process_paragraphs_Some [OF whole, of rx] by (simp only: split)
  then show ?case
    by (simp add: ih process_paragraphs_Some [OF Some(1)])
qed

lemma process_paragraphs_printed:
  "printed (process_paragraphs rx cb) =
     concat (map (\<lambda>p. c_str p @ [NL, NL]) (filter (\<lambda>p. rx (c_str p)) (tested (process_paragraphs rx cb))))"
proof (induction cb rule: process_paragraphs_induct)
  case (None cb)
  then show ?case by (simp add: process_paragraphs_None)
next
  case (Some cb i)
  then show ?case by (simp add: process_paragraphs_Some)
qed

lemma process_paragraphs_chunk_match:
  "chunk_match (process_paragraphs rx cb) \<longleftrightarrow>
     (\<exists>p \<in> set (tested (process_paragraphs rx cb)). rx (c_str p))"
proof (induction cb rule: process_paragraphs_induct)
  case (None cb)
  then show ?case by (simp add: process_paragraphs_None)
next
  case (Some cb i)
  then show ?case by (simp add: process_paragraphs_Some)
qed

section \<open>Facts about line-boundary trimming\<close>

lemma scan_last_newline_Some:
  "scan_last_newline buf n = Some j \<Longrightarrow>
     0 < j \<and> j \<le> n \<and> buf ! (j - 1) = NL \<and> (\<forall>k. j \<le> k \<and> k < n \<longrightarrow> buf ! k \<noteq> NL)"
proof (induction n)
  case 0
  then show ?case by simp
next
  case (Suc n)
  show ?case
  proof (cases "buf ! n = NL")
    case True
    with Suc.prems show ?thesis by auto
  next
    case False
    with Suc.prems have "scan_last_newline buf n = Some j" by simp
    from Suc.IH [OF this] False show ?thesis
      by (auto simp: less_Suc_eq)
  qed
qed

lemma scan_last_newline_None:
  "scan_last_newline buf n = None \<longleftrightarrow> (\<forall>k < n. buf ! k \<noteq> NL)"
  by (induction n) (auto simp: less_Suc_eq)

lemma scan_last_newline_None_set:
  "scan_last_newline buf (length buf) = None \<longleftrightarrow> NL \<notin> set buf"
  by (auto simp: scan_last_newline_None in_set_conv_nth)

lemma scan_last_newline_last:
  "buf \<noteq> [] \<Longrightarrow> last buf = NL \<Longrightarrow> scan_last_newline buf (length buf) = Some (length buf)"
  by (cases "length buf") (auto simp: last_conv_nth)

lemma assign_bytes_cases:
  "assign_bytes w = (case scan_last_newline w (length w) of Some j \<Rightarrow> j | None \<Rightarrow> length w)"
proof (cases "scan_last_newline w (length w)")
  case None
  then show ?thesis by (simp add: assign_bytes_def)
next
  case (Some j)
  from scan_last_newline_Some [OF this] Some show ?thesis
    by (auto simp: assign_bytes_def Let_def)
qed

lemma assign_bytes_no_newline:
  "NL \<notin> set w \<Longrightarrow> assign_bytes w = length w"
  by (simp add: assign_bytes_cases scan_last_newline_None_set [symmetric])

lemma assign_bytes_pos: "w \<noteq> [] \<Longrightarrow> 0 < assign_bytes w"
  using scan_last_newline_Some [of w "length w"]
  by (auto simp: assign_bytes_cases split: option.splits)

lemma assign_bytes_le: "assign_bytes w \<le> length w"
  using scan_last_newline_Some [of w "length w"]
  by (auto simp: assign_bytes_cases split: option.splits)

lemma assign_bytes_boundary:
  "w \<noteq> [] \<Longrightarrow>
     w ! (assign_bytes w - 1) = NL \<or> (NL \<notin> set w \<and> assign_bytes w = length w)"
  using scan_last_newline_Some [of w "length w"]
  by (auto simp: assign_bytes_cases scan_last_newline_None_set split: option.splits)

lemma trim_to_last_newline_pos: "buffer \<noteq> [] \<Longrightarrow> 0 < trim_to_last_newline buffer"
  by (auto simp: trim_to_last_newline_def Let_def split: option.splits)

lemma child_usable_trim: "child_usable buffer = trim_to_last_newline buffer"
  using trim_to_last_newline_pos [of buffer]
  by (auto simp: child_usable_def forward_progress_def)

lemma child_usable_cases:
  "child_usable buffer =
     (case scan_last_newline buffer (length buffer) of Some j \<Rightarrow> j | None \<Rightarrow> length buffer)"
  using scan_last_newline_Some [of buffer "length buffer"]
  by (auto simp: child_usable_trim trim_to_last_newline_def Let_def split: option.splits)

lemma child_usable_assign_bytes: "child_usable buffer = assign_bytes buffer"
  by (simp add: child_usable_cases assign_bytes_cases)

lemma child_usable_le: "child_usable buffer \<le> length buffer"
  by (simp add: child_usable_assign_bytes assign_bytes_le)

lemma assign_bytes_take:
  "assign_bytes (take (assign_bytes w) w) = assign_bytes w"
proof (cases "scan_last_newline w (length w)")
  case None
  then show ?thesis by (simp add: assign_bytes_cases)
next
  case (Some j)
  from scan_last_newline_Some [OF this]
  have j: "0 < j" "j \<le> length w" "w ! (j - 1) = NL" by auto
  have eq: "assign_bytes w = j" using Some by (simp add: assign_bytes_cases)
  have nonempty: "take j w \<noteq> []" using j by auto
  have "last (take j w) = NL"
    using j by (simp add: last_conv_nth [OF nonempty] min_def)
  with nonempty have "scan_last_newline (take j w) (length (take j w)) = Some (length (take j w))"
    by (rule scan_last_newline_last)
  then have "assign_bytes (take j w) = length (take j w)"
    by (simp only: assign_bytes_cases option.case)
  then show ?thesis
    unfolding eq using j by simp
qed

section \<open>The ranges of a run\<close>

text \<open>
  The ranges the work distributor hands out when it is asked again and again from
  \<open>next_offset_to_assign = off\<close> on, until its read returns nothing.
\<close>

function assignments :: "string \<Rightarrow> nat \<Rightarrow> (nat \<times> nat) list" where
  "assignments file off =
     (let tempbuf = take BUFFER_SIZE (drop off file)
      in if length tempbuf = 0 then []
         else (off, assign_bytes tempbuf) # assignments file (off + assign_bytes tempbuf))"
  by pat_completeness auto

termination assignments
proof (relation "measure (\<lambda>(inp, off). length inp - off)")
  show "wf (measure (\<lambda>(inp, off). length inp - off))"
    by simp
next
  fix inp :: string and off :: nat and x :: string
  assume x: "x = take BUFFER_SIZE (drop off inp)" and nonempty: "length x \<noteq> 0"
  then have "x \<noteq> []" by auto
  then have "0 < assign_bytes x" by (rule assign_bytes_pos)
  moreover have "off < length inp" using x nonempty by auto
  ultimately show "((inp, off + assign_bytes x), (inp, off)) \<in> measure (\<lambda>(inp, off). length inp - off)"
    by simp
qed

declare assignments.simps [simp del]

text \<open>
  The bytes a list of ranges covers, and ranges that lie end to end from \<open>start\<close> on,
  none of them empty.
\<close>

definition total :: "(nat \<times> nat) list \<Rightarrow> nat" where
  "total rs = sum_list (map snd rs)"

fun tiled :: "nat \<Rightarrow> (nat \<times> nat) list \<Rightarrow> bool" where
  "tiled start [] = True"
| "tiled start (r # rs) = (fst r = start \<and> 0 < snd r \<and> tiled (start + snd r) rs)"

lemma total_simps [simp]:
  "total [] = 0" "total (r # rs) = snd r + total rs" "total (xs @ ys) = total xs + total ys"
  by (simp_all add: total_def)

lemma tiled_append:
  "tiled start (xs @ ys) \<longleftrightarrow> tiled start xs \<and> tiled (start + total xs) ys"
  by (induction xs arbitrary: start) (auto simp: add.assoc)

lemma tiled_member:
  "tiled start rs \<Longrightarrow> r \<in> set rs \<Longrightarrow>
     start \<le> fst r \<and> 0 < snd r \<and> fst r + snd r \<le> start + total rs"
  by (induction rs arbitrary: start) fastforce+

lemma tiled_head_unique:
  "tiled start (r # rs) \<Longrightarrow> q \<in> set (r # rs) \<Longrightarrow> fst q = start \<Longrightarrow> q = r"
  using tiled_member [of "start + snd r" rs q] by auto

lemma assignments_empty:
  "take BUFFER_SIZE (drop off inp) = [] \<Longrightarrow> assignments inp off = []"
  by (subst assignments.simps) simp

lemma assignments_step:
  "take BUFFER_SIZE (drop off inp) \<noteq> [] \<Longrightarrow>
   assignments inp off =
     (off, assign_bytes (take BUFFER_SIZE (drop off inp))) #
     assignments inp (off + assign_bytes (take BUFFER_SIZE (drop off inp)))"
  by (subst assignments.simps) (simp add: Let_def)

lemma assignments_tiled: "tiled off (assignments inp off)"
proof (induction inp off rule: assignments.induct)
  case (1 inp off)
  show ?case
  proof (cases "take BUFFER_SIZE (drop off inp) = []")
    case True
    then show ?thesis by (simp add: assignments_empty)
  next
    case False
    then have "length (take BUFFER_SIZE (drop off inp)) \<noteq> 0" by simp
    from "1.IH" [OF refl this] False show ?thesis
      by (simp add: assignments_step assign_bytes_pos)
  qed
qed

lemma assignments_suffix:
  "assignments inp off = xs @ ys \<Longrightarrow> ys = assignments inp (off + total xs)"
proof (induction xs arbitrary: off)
  case Nil
  then show ?case by simp
next
  case (Cons r xs)
  show ?case
  proof (cases "take BUFFER_SIZE (drop off inp) = []")
    case True
    with Cons.prems show ?thesis by (simp add: assignments_empty)
  next
    case False
    from Cons.prems have r: "r = (off, assign_bytes (take BUFFER_SIZE (drop off inp)))"
      and tl: "assignments inp (off + assign_bytes (take BUFFER_SIZE (drop off inp))) = xs @ ys"
      by (simp_all add: assignments_step [OF False])
    from Cons.IH [OF tl] r show ?thesis by (simp add: add.assoc)
  qed
qed

lemma assignments_member:
  "r \<in> set (assignments inp off) \<Longrightarrow>
     take BUFFER_SIZE (drop (fst r) inp) \<noteq> [] \<and>
     snd r = assign_bytes (take BUFFER_SIZE (drop (fst r) inp))"
proof (induction inp off rule: assignments.induct)
  case (1 inp off)
  show ?case
  proof (cases "take BUFFER_SIZE (drop off inp) = []")
    case True
    with "1.prems" show ?thesis by (simp add: assignments_empty)
  next
    case False
    then have "length (take BUFFER_SIZE (drop off inp)) \<noteq> 0" by simp
    from "1.IH" [OF refl this] "1.prems" False show ?thesis
      by (auto simp: assignments_step)
  qed
qed

lemma assignments_total:
  "off \<le> length inp \<Longrightarrow> off + total (assignments inp off) = length inp"
proof (induction inp off rule: assignments.induct)
  case (1 inp off)
  show ?case
  proof (cases "take BUFFER_SIZE (drop off inp) = []")
    case True
    with "1.prems" have "off = length inp" by (auto simp: BUFFER_SIZE_def)
    with True show ?thesis by (simp add: assignments_empty)
  next
    case False
    let ?w = "take BUFFER_SIZE (drop off inp)"
    from False have nz: "length ?w \<noteq> 0" by simp
    have "assign_bytes ?w \<le> length ?w" by (rule assign_bytes_le)
    then have "off + assign_bytes ?w \<le> length inp" using "1.prems" by auto
    from "1.IH" [OF refl nz this] show ?thesis
      by (simp add: assignments_step [OF False] add.assoc)
  qed
qed

section \<open>A run against its sequential reading\<close>

text \<open>
  What one process reading the ranges in file order would leave: the carry buffer, the
  bytes printed, the spans tested and, per range, offset, byte count and found flag.
\<close>

record outcome =
  out_carry :: string
  out_stdout :: string
  out_candidates :: "string list"
  out_log :: "(nat \<times> nat \<times> bool) list"

definition consume_range :: "(string \<Rightarrow> bool) \<Rightarrow> string \<Rightarrow> outcome \<Rightarrow> nat \<times> nat \<Rightarrow> outcome" where
  "consume_range rx file oc r =
     (let ex = process_paragraphs rx (out_carry oc @ take (snd r) (drop (fst r) file))
      in \<lparr>out_carry = rest ex,
          out_stdout = out_stdout oc @ printed ex,
          out_candidates = out_candidates oc @ tested ex,
          out_log = out_log oc @ [(fst r, snd r, chunk_match ex)]\<rparr>)"

definition sequential :: "(string \<Rightarrow> bool) \<Rightarrow> string \<Rightarrow> (nat \<times> nat) list \<Rightarrow> outcome" where
  "sequential rx file rs =
     foldl (consume_range rx file)
       \<lparr>out_carry = [], out_stdout = [], out_candidates = [], out_log = []\<rparr> rs"

text \<open>A log line without its \<open>process_id\<close> and \<open>elapsed_time\<close> columns.\<close>

definition log_core :: "'t log_entry \<Rightarrow> nat \<times> nat \<times> bool" where
  "log_core e = (log_file_offset e, log_bytes_read e, log_found e)"

definition agrees :: "'t coordinator \<Rightarrow> outcome \<Rightarrow> bool" where
  "agrees s oc \<longleftrightarrow>
     carry s = out_carry oc \<and> stdout s = out_stdout oc \<and>
     candidates s = out_candidates oc \<and> map log_core (logfile s) = out_log oc"

text \<open>
  The invariant of the dispatch loop. The ranges of the run are those already
  \<open>consumed\<close>, those \<open>inflight\<close> (assigned and not yet consumed: with a worker, or in
  the reorder buffer) and those \<open>upcoming\<close>. The cursors stand at the ends of the first
  two lists, and carry buffer, output and log are what reading the consumed ranges in file
  order leaves; the reorder buffer is sorted and holds inflight chunks with the bytes of
  their ranges; a worker about to report holds an inflight range that no other worker and
  no buffered chunk has; every inflight range is with a worker or in the buffer; once
  assignments are finished nothing is upcoming, a worker exits only after that, and
  \<open>finished_children\<close> counts the workers that are gone.
\<close>

definition cursors_ok ::
  "string \<Rightarrow> (string \<Rightarrow> bool) \<Rightarrow> (nat \<times> nat) list \<Rightarrow> (nat \<times> nat) list \<Rightarrow> (nat \<times> nat) list \<Rightarrow>
   't coordinator \<Rightarrow> bool" where
  "cursors_ok file rx consumed inflight upcoming s \<longleftrightarrow>
     assignments file 0 = consumed @ inflight @ upcoming \<and>
     next_offset_to_process s = total consumed \<and>
     next_offset_to_assign s = total consumed + total inflight \<and>
     agrees s (sequential rx file consumed)"

definition pending_ok :: "string \<Rightarrow> (nat \<times> nat) list \<Rightarrow> 't coordinator \<Rightarrow> bool" where
  "pending_ok file inflight s \<longleftrightarrow>
     sorted_wrt (<) (map file_offset (pending_chunks s)) \<and>
     (\<forall>c \<in> set (pending_chunks s).
        (file_offset c, bytes_read c) \<in> set inflight \<and>
        text_bytes c = take (bytes_read c) (drop (file_offset c) file))"

definition workers_ok :: "(nat \<times> nat) list \<Rightarrow> 't coordinator \<Rightarrow> bool" where
  "workers_ok inflight s \<longleftrightarrow>
     (\<forall>i off b. i < num_procs s \<longrightarrow> workers s i = Reporting off b \<longrightarrow>
        (off, b) \<in> set inflight \<and>
        off \<notin> file_offset ` set (pending_chunks s) \<and>
        (\<forall>j off' b'. j < num_procs s \<longrightarrow> j \<noteq> i \<longrightarrow> workers s j = Reporting off' b' \<longrightarrow> off' \<noteq> off))"

definition covered :: "(nat \<times> nat) list \<Rightarrow> 't coordinator \<Rightarrow> bool" where
  "covered inflight s \<longleftrightarrow>
     (\<forall>r \<in> set inflight.
        (\<exists>c \<in> set (pending_chunks s). file_offset c = fst r \<and> bytes_read c = snd r) \<or>
        (\<exists>i < num_procs s. workers s i = Reporting (fst r) (snd r)))"

definition control_ok :: "(nat \<times> nat) list \<Rightarrow> 't coordinator \<Rightarrow> bool" where
  "control_ok upcoming s \<longleftrightarrow>
     (finished_assignments s \<longrightarrow> upcoming = []) \<and>
     (\<forall>i < num_procs s. workers s i = Exiting \<or> workers s i = Gone \<longrightarrow> finished_assignments s) \<and>
     finished_children s = card {i. i < num_procs s \<and> workers s i = Gone}"

definition coherent ::
  "string \<Rightarrow> (string \<Rightarrow> bool) \<Rightarrow> (nat \<times> nat) list \<Rightarrow> (nat \<times> nat) list \<Rightarrow> (nat \<times> nat) list \<Rightarrow>
   't coordinator \<Rightarrow> bool" where
  "coherent file rx consumed inflight upcoming s \<longleftrightarrow>
     cursors_ok file rx consumed inflight upcoming s \<and> pending_ok file inflight s \<and>
     workers_ok inflight s \<and> covered inflight s \<and> control_ok upcoming s"

text \<open>
  The states of the dispatch loop: the initial state of a run that passed the check of
  \<open>num_procs\<close>, and each state the loop reaches by reading a message that is there.
\<close>

inductive reachable :: "string \<Rightarrow> (string \<Rightarrow> bool) \<Rightarrow> 't coordinator \<Rightarrow> bool"
  for inp :: string and rx :: "string \<Rightarrow> bool" where
  start: "1 \<le> n \<Longrightarrow> n \<le> MAX_PROCESSES \<Longrightarrow> reachable inp rx (initial n)"
| step: "reachable inp rx s \<Longrightarrow> loop_continues s \<Longrightarrow> readable ev s \<Longrightarrow>
         reachable inp rx (handle_message inp rx ev s)"

lemma coherent_initial: "coherent inp rx [] [] (assignments inp 0) (initial n)"
  by (simp add: coherent_def cursors_ok_def pending_ok_def workers_ok_def covered_def
      control_ok_def initial_def agrees_def sequential_def)

subsection \<open>Frame lemmas\<close>

lemma cursors_ok_frame:
  assumes "cursors_ok inp rx consumed inflight upcoming s"
    and "next_offset_to_process s' = next_offset_to_process s"
    and "next_offset_to_assign s' = next_offset_to_assign s"
    and "carry s' = carry s" and "stdout s' = stdout s"
    and "candidates s' = candidates s" and "logfile s' = logfile s"
  shows "cursors_ok inp rx consumed inflight upcoming s'"
  using assms by (simp add: cursors_ok_def agrees_def)

lemma pending_ok_frame:
  assumes "pending_ok inp inflight s"
    and "pending_chunks s' = pending_chunks s"
    and "set inflight \<subseteq> set inflight'"
  shows "pending_ok inp inflight' s'"
  using assms unfolding pending_ok_def by (simp add: subset_iff)

lemma workers_ok_frame:
  assumes "workers_ok inflight s"
    and "pending_chunks s' = pending_chunks s" and "num_procs s' = num_procs s"
    and "\<And>j off b. workers s' j = Reporting off b \<Longrightarrow> workers s j = Reporting off b"
  shows "workers_ok inflight s'"
  unfolding workers_ok_def
proof (intro allI impI)
  fix i off b
  assume i: "i < num_procs s'" and rep: "workers s' i = Reporting off b"
  then have old: "i < num_procs s" "workers s i = Reporting off b"
    using assms(3,4) by simp_all
  from assms(1) old have
    a: "(off, b) \<in> set inflight" and
    b: "off \<notin> file_offset ` set (pending_chunks s)" and
    c: "\<And>j off' b'. j < num_procs s \<Longrightarrow> j \<noteq> i \<Longrightarrow> workers s j = Reporting off' b' \<Longrightarrow> off' \<noteq> off"
    unfolding workers_ok_def by blast+
  have "\<forall>j off' b'. j < num_procs s' \<longrightarrow> j \<noteq> i \<longrightarrow> workers s' j = Reporting off' b' \<longrightarrow> off' \<noteq> off"
    using c assms(3,4) by metis
  with a b show "(off, b) \<in> set inflight \<and> off \<notin> file_offset ` set (pending_chunks s') \<and>
      (\<forall>j off' b'. j < num_procs s' \<longrightarrow> j \<noteq> i \<longrightarrow> workers s' j = Reporting off' b' \<longrightarrow> off' \<noteq> off)"
    using assms(2) by simp
qed

lemma covered_frame:
  assumes "covered inflight s"
    and "pending_chunks s' = pending_chunks s" and "num_procs s' = num_procs s"
    and "\<And>j off b. workers s j = Reporting off b \<Longrightarrow> workers s' j = Reporting off b"
  shows "covered inflight s'"
  unfolding covered_def
proof
  fix r
  assume "r \<in> set inflight"
  with assms(1) have "(\<exists>c \<in> set (pending_chunks s). file_offset c = fst r \<and> bytes_read c = snd r) \<or>
      (\<exists>i < num_procs s. workers s i = Reporting (fst r) (snd r))"
    unfolding covered_def by blast
  then show "(\<exists>c \<in> set (pending_chunks s'). file_offset c = fst r \<and> bytes_read c = snd r) \<or>
      (\<exists>i < num_procs s'. workers s' i = Reporting (fst r) (snd r))"
    using assms(2,3,4) by auto
qed

subsection \<open>End of file\<close>

lemma coherent_handle_eof:
  assumes "coherent inp rx consumed inflight upcoming s"
    and "i < num_procs s" and "workers s i = Exiting"
  shows "coherent inp rx consumed inflight upcoming (handle_eof i s)"
proof -
  let ?s' = "handle_eof i s"
  have grown: "{j. j < num_procs s \<and> ((workers s)(i := Gone)) j = Gone} =
      insert i {j. j < num_procs s \<and> workers s j = Gone}"
    using assms(2) by auto
  have fresh: "i \<notin> {j. j < num_procs s \<and> workers s j = Gone}"
    using assms(3) by simp
  have fin_set: "finite {j. j < num_procs s \<and> workers s j = Gone}"
    by simp
  have count: "card {j. j < num_procs s \<and> ((workers s)(i := Gone)) j = Gone} =
      Suc (card {j. j < num_procs s \<and> workers s j = Gone})"
    unfolding grown by (rule card_insert_disjoint [OF fin_set fresh])
  from assms(1) have cu: "cursors_ok inp rx consumed inflight upcoming s"
    and pe: "pending_ok inp inflight s" and wo: "workers_ok inflight s"
    and co: "covered inflight s" and ct: "control_ok upcoming s"
    by (simp_all add: coherent_def)
  have "cursors_ok inp rx consumed inflight upcoming ?s'"
    using cu by (rule cursors_ok_frame) (simp_all add: handle_eof_def)
  moreover have "pending_ok inp inflight ?s'"
    using pe by (rule pending_ok_frame) (simp_all add: handle_eof_def)
  moreover have "workers_ok inflight ?s'"
    using wo by (rule workers_ok_frame) (simp_all add: handle_eof_def split: if_splits)
  moreover have "covered inflight ?s'"
    using co by (rule covered_frame) (use assms(3) in \<open>auto simp add: handle_eof_def\<close>)
  moreover have "control_ok upcoming ?s'"
  proof -
    note c = ct
    then have fin: "finished_assignments s"
      using assms(2,3) unfolding control_ok_def by blast
    have "finished_children ?s' = card {j. j < num_procs ?s' \<and> workers ?s' j = Gone}"
      using c count by (simp add: control_ok_def handle_eof_def)
    moreover have "finished_assignments ?s'" "num_procs ?s' = num_procs s"
      using fin by (simp_all add: handle_eof_def)
    moreover have "upcoming = []"
      using c fin by (simp add: control_ok_def)
    ultimately show ?thesis
      unfolding control_ok_def by simp
  qed
  ultimately show ?thesis
    by (simp add: coherent_def)
qed


subsection \<open>Requests\<close>

lemma coherentD:
  assumes "coherent inp rx consumed inflight upcoming s"
  shows "cursors_ok inp rx consumed inflight upcoming s" "pending_ok inp inflight s"
    "workers_ok inflight s" "covered inflight s" "control_ok upcoming s"
  using assms by (simp_all add: coherent_def)

lemma cursors_ok_tiled:
  assumes "cursors_ok inp rx consumed inflight upcoming s"
  shows "tiled (next_offset_to_process s) inflight"
proof -
  have "tiled 0 (consumed @ inflight @ upcoming)"
    using assms assignments_tiled [of 0 inp] by (simp add: cursors_ok_def)
  then show ?thesis
    using assms by (simp add: tiled_append cursors_ok_def)
qed

lemma inflight_bounds:
  assumes "cursors_ok inp rx consumed inflight upcoming s" and "r \<in> set inflight"
  shows "next_offset_to_process s \<le> fst r" "0 < snd r"
    "fst r + snd r \<le> next_offset_to_assign s"
  using tiled_member [OF cursors_ok_tiled [OF assms(1)] assms(2)] assms(1)
  by (simp_all add: cursors_ok_def)

lemma upcoming_assignments:
  assumes "cursors_ok inp rx consumed inflight upcoming s"
  shows "upcoming = assignments inp (next_offset_to_assign s)"
proof -
  have "assignments inp 0 = (consumed @ inflight) @ upcoming"
    using assms by (simp add: cursors_ok_def)
  from assignments_suffix [OF this] show ?thesis
    using assms by (simp add: cursors_ok_def)
qed

lemma coherent_send_end:
  assumes "coherent inp rx consumed inflight upcoming s"
    and "workers s i = Requesting" and "finished_assignments s"
  shows "coherent inp rx consumed inflight upcoming (send_end i s)"
proof -
  let ?s' = "send_end i s"
  note parts = coherentD [OF assms(1)]
  have same: "pending_chunks ?s' = pending_chunks s" "num_procs ?s' = num_procs s"
    "next_offset_to_process ?s' = next_offset_to_process s"
    "next_offset_to_assign ?s' = next_offset_to_assign s"
    "carry ?s' = carry s" "stdout ?s' = stdout s" "candidates ?s' = candidates s"
    "logfile ?s' = logfile s" "finished_assignments ?s' = finished_assignments s"
    "finished_children ?s' = finished_children s"
    by (simp_all add: send_end_def)
  have others: "workers ?s' j = workers s j" if "j \<noteq> i" for j
    using that by (simp add: send_end_def)
  have self: "workers ?s' i = Exiting \<or> workers ?s' i = Blocked"
    by (simp add: send_end_def)
  have "cursors_ok inp rx consumed inflight upcoming ?s'"
    using parts(1) by (rule cursors_ok_frame) (simp_all add: same)
  moreover have "pending_ok inp inflight ?s'"
    using parts(2) by (rule pending_ok_frame) (simp_all add: same)
  moreover have "workers_ok inflight ?s'"
    using parts(3)
  proof (rule workers_ok_frame)
    fix j off b
    assume "workers ?s' j = Reporting off b"
    with self have "j \<noteq> i" by auto
    with \<open>workers ?s' j = Reporting off b\<close> show "workers s j = Reporting off b"
      by (simp add: others)
  qed (simp_all add: same)
  moreover have "covered inflight ?s'"
    using parts(4)
  proof (rule covered_frame)
    fix j off b
    assume "workers s j = Reporting off b"
    with assms(2) have "j \<noteq> i" by auto
    with \<open>workers s j = Reporting off b\<close> show "workers ?s' j = Reporting off b"
      by (simp add: others)
  qed (simp_all add: same)
  moreover have "control_ok upcoming ?s'"
  proof -
    have gone: "workers ?s' j = Gone \<longleftrightarrow> workers s j = Gone" for j
      using assms(2) self others [of j] by (cases "j = i") auto
    show ?thesis
      using parts(5) assms(3) by (simp add: control_ok_def same gone)
  qed
  ultimately show ?thesis
    by (simp add: coherent_def)
qed

lemma coherent_finish:
  assumes "coherent inp rx consumed inflight upcoming s"
    and "take BUFFER_SIZE (drop (next_offset_to_assign s) inp) = []"
  shows "coherent inp rx consumed inflight upcoming (s\<lparr>finished_assignments := True\<rparr>)"
proof -
  note parts = coherentD [OF assms(1)]
  have "upcoming = []"
    using upcoming_assignments [OF parts(1)] assms(2) by (simp add: assignments_empty)
  then have "control_ok upcoming (s\<lparr>finished_assignments := True\<rparr>)"
    using parts(5) by (simp add: control_ok_def)
  moreover have "cursors_ok inp rx consumed inflight upcoming (s\<lparr>finished_assignments := True\<rparr>)"
    using parts(1) by (rule cursors_ok_frame) simp_all
  moreover have "pending_ok inp inflight (s\<lparr>finished_assignments := True\<rparr>)"
    using parts(2) by (rule pending_ok_frame) simp_all
  moreover have "workers_ok inflight (s\<lparr>finished_assignments := True\<rparr>)"
    using parts(3) by (rule workers_ok_frame) simp_all
  moreover have "covered inflight (s\<lparr>finished_assignments := True\<rparr>)"
    using parts(4) by (rule covered_frame) simp_all
  ultimately show ?thesis
    by (simp add: coherent_def)
qed

lemma coherent_assign:
  assumes "coherent inp rx consumed inflight upcoming s"
    and "workers s i = Requesting" and "i < num_procs s" and "\<not> finished_assignments s"
    and nonempty: "take BUFFER_SIZE (drop (next_offset_to_assign s) inp) \<noteq> []"
    and b: "b = assign_bytes (take BUFFER_SIZE (drop (next_offset_to_assign s) inp))"
    and s': "s' = s\<lparr>next_offset_to_assign := next_offset_to_assign s + b,
        workers := (workers s)(i := Reporting (next_offset_to_assign s) b)\<rparr>"
  shows "coherent inp rx consumed (inflight @ [(next_offset_to_assign s, b)]) (tl upcoming) s'"
proof -
  let ?a = "next_offset_to_assign s"
  note parts = coherentD [OF assms(1)]
  have up: "upcoming = (?a, b) # tl upcoming"
    using upcoming_assignments [OF parts(1)] assignments_step [OF nonempty] b by simp
  have below: "fst r < ?a" if "r \<in> set inflight" for r
    using inflight_bounds [OF parts(1) that] by simp
  have pend_below: "file_offset c < ?a" if "c \<in> set (pending_chunks s)" for c
    using parts(2) that below [of "(file_offset c, bytes_read c)"]
    by (auto simp: pending_ok_def)
  have rep_below: "off < ?a" if "j < num_procs s" "workers s j = Reporting off b'" for j off b'
    using parts(3) that below [of "(off, b')"] unfolding workers_ok_def by fastforce
  have "cursors_ok inp rx consumed (inflight @ [(?a, b)]) (tl upcoming) s'"
  proof -
    have "assignments inp 0 = consumed @ (inflight @ [(?a, b)]) @ tl upcoming"
      using parts(1) up by (simp add: cursors_ok_def)
    then show ?thesis
      using parts(1) by (simp add: cursors_ok_def s' agrees_def)
  qed
  moreover have "pending_ok inp (inflight @ [(?a, b)]) s'"
    using parts(2) by (rule pending_ok_frame) (auto simp: s')
  moreover have "workers_ok (inflight @ [(?a, b)]) s'"
    unfolding workers_ok_def
  proof (intro allI impI)
    fix j off b'
    assume j: "j < num_procs s'" and rep: "workers s' j = Reporting off b'"
    show "(off, b') \<in> set (inflight @ [(?a, b)]) \<and>
        off \<notin> file_offset ` set (pending_chunks s') \<and>
        (\<forall>k off'' b''. k < num_procs s' \<longrightarrow> k \<noteq> j \<longrightarrow>
           workers s' k = Reporting off'' b'' \<longrightarrow> off'' \<noteq> off)"
    proof (cases "j = i")
      case True
      with rep have eq: "off = ?a" "b' = b" by (simp_all add: s')
      have "off'' \<noteq> off" if "k < num_procs s'" "k \<noteq> j" "workers s' k = Reporting off'' b''"
        for k off'' b''
        using that True rep_below [of k off'' b''] eq by (simp add: s')
      moreover have "off \<notin> file_offset ` set (pending_chunks s')"
        using pend_below eq by (fastforce simp: s')
      ultimately show ?thesis using eq by auto
    next
      case False
      with j rep have old: "j < num_procs s" "workers s j = Reporting off b'"
        by (simp_all add: s')
      from parts(3) old have
        a1: "(off, b') \<in> set inflight" and
        a2: "off \<notin> file_offset ` set (pending_chunks s)" and
        a3: "\<And>k off'' b''. k < num_procs s \<Longrightarrow> k \<noteq> j \<Longrightarrow> workers s k = Reporting off'' b'' \<Longrightarrow> off'' \<noteq> off"
        unfolding workers_ok_def by blast+
      have "off'' \<noteq> off" if "k < num_procs s'" "k \<noteq> j" "workers s' k = Reporting off'' b''"
        for k off'' b''
      proof (cases "k = i")
        case True
        with that have "off'' = ?a" by (simp add: s')
        with rep_below [OF old] show ?thesis by simp
      next
        case False
        with that a3 [of k off'' b''] show ?thesis by (simp add: s')
      qed
      with a1 a2 show ?thesis by (simp add: s')
    qed
  qed
  moreover have "covered (inflight @ [(?a, b)]) s'"
    unfolding covered_def
  proof
    fix r
    assume "r \<in> set (inflight @ [(?a, b)])"
    then consider "r \<in> set inflight" | "r = (?a, b)" by auto
    then show "(\<exists>c \<in> set (pending_chunks s'). file_offset c = fst r \<and> bytes_read c = snd r) \<or>
        (\<exists>k < num_procs s'. workers s' k = Reporting (fst r) (snd r))"
    proof cases
      case 1
      with parts(4) have "(\<exists>c \<in> set (pending_chunks s). file_offset c = fst r \<and> bytes_read c = snd r) \<or>
          (\<exists>k < num_procs s. workers s k = Reporting (fst r) (snd r))"
        unfolding covered_def by blast
      then show ?thesis
      proof
        assume "\<exists>c \<in> set (pending_chunks s). file_offset c = fst r \<and> bytes_read c = snd r"
        then show ?thesis by (simp add: s')
      next
        assume "\<exists>k < num_procs s. workers s k = Reporting (fst r) (snd r)"
        then obtain k where k: "k < num_procs s" "workers s k = Reporting (fst r) (snd r)"
          by blast
        with assms(2) have "k \<noteq> i" by auto
        with k have "k < num_procs s' \<and> workers s' k = Reporting (fst r) (snd r)"
          by (simp add: s')
        then show ?thesis by blast
      qed
    next
      case 2
      then have "i < num_procs s' \<and> workers s' i = Reporting (fst r) (snd r)"
        using assms(3) by (simp add: s')
      then show ?thesis by blast
    qed
  qed
  moreover have "control_ok (tl upcoming) s'"
  proof -
    have gone: "workers s' j = Gone \<longleftrightarrow> workers s j = Gone" for j
      using assms(2) by (cases "j = i") (simp_all add: s')
    have exiting: "workers s' j = Exiting \<longleftrightarrow> workers s j = Exiting \<and> j \<noteq> i" for j
      using assms(2) by (cases "j = i") (simp_all add: s')
    have "num_procs s' = num_procs s" "finished_assignments s' = finished_assignments s"
      "finished_children s' = finished_children s"
      by (simp_all add: s')
    then show ?thesis
      using parts(5) assms(4) by (auto simp: control_ok_def gone exiting)
  qed
  ultimately show ?thesis
    by (simp add: coherent_def)
qed

lemma coherent_handle_request:
  assumes "coherent inp rx consumed inflight upcoming s"
    and "workers s i = Requesting" and "i < num_procs s"
  shows "\<exists>inflight' upcoming'. coherent inp rx consumed inflight' upcoming' (handle_request inp i s)"
proof (cases "finished_assignments s")
  case True
  then have "handle_request inp i s = send_end i s"
    by (simp add: handle_request_def)
  with coherent_send_end [OF assms(1,2) True] show ?thesis by auto
next
  case False
  show ?thesis
  proof (cases "take BUFFER_SIZE (drop (next_offset_to_assign s) inp) = []")
    case True
    then have eq: "handle_request inp i s = send_end i (s\<lparr>finished_assignments := True\<rparr>)"
      using False by (simp add: handle_request_def)
    have "coherent inp rx consumed inflight upcoming (send_end i (s\<lparr>finished_assignments := True\<rparr>))"
      by (rule coherent_send_end [OF coherent_finish [OF assms(1) True]]) (simp_all add: assms(2))
    with eq show ?thesis by auto
  next
    case nonempty: False
    let ?b = "assign_bytes (take BUFFER_SIZE (drop (next_offset_to_assign s) inp))"
    have eq: "handle_request inp i s = s\<lparr>next_offset_to_assign := next_offset_to_assign s + ?b,
        workers := (workers s)(i := Reporting (next_offset_to_assign s) ?b)\<rparr>"
      using False nonempty by (simp add: handle_request_def Let_def)
    from coherent_assign [OF assms(1,2,3) False nonempty refl eq] show ?thesis by blast
  qed
qed

subsection \<open>Results\<close>

lemma insert_after_set: "set (insert_after c xs) = insert c (set xs)"
  by (induction xs) auto

lemma insert_chunk_sorted_set: "set (insert_chunk_sorted xs c) = insert c (set xs)"
  by (cases xs) (auto simp: insert_after_set)

lemma insert_after_sorted:
  "sorted_wrt (<) (map file_offset xs) \<Longrightarrow> file_offset c \<notin> file_offset ` set xs \<Longrightarrow>
     sorted_wrt (<) (map file_offset (insert_after c xs))"
proof (induction xs)
  case Nil
  then show ?case by simp
next
  case (Cons x xs)
  show ?case
  proof (cases "file_offset x < file_offset c")
    case True
    with Cons show ?thesis by (auto simp: insert_after_set)
  next
    case False
    with Cons.prems have "file_offset c < file_offset x" by auto
    with Cons.prems False show ?thesis by fastforce
  qed
qed

lemma insert_chunk_sorted_sorted:
  "sorted_wrt (<) (map file_offset xs) \<Longrightarrow> file_offset c \<notin> file_offset ` set xs \<Longrightarrow>
     sorted_wrt (<) (map file_offset (insert_chunk_sorted xs c))"
proof (cases xs)
  case Nil
  then show ?thesis by simp
next
  case (Cons x ys)
  assume sorted: "sorted_wrt (<) (map file_offset xs)"
    and fresh: "file_offset c \<notin> file_offset ` set xs"
  show ?thesis
  proof (cases "file_offset c < file_offset x")
    case True
    with sorted Cons show ?thesis by fastforce
  next
    case False
    with fresh Cons have lt: "file_offset x < file_offset c" by auto
    have "sorted_wrt (<) (map file_offset (insert_after c ys))"
      using sorted fresh Cons by (intro insert_after_sorted) auto
    with sorted lt False Cons show ?thesis by (auto simp: insert_after_set)
  qed
qed

lemma child_process_assigned:
  assumes "r \<in> set (assignments inp 0)"
  shows "child_process inp i (fst r) (snd r) t =
     \<lparr>process_id = i, file_offset = fst r, bytes_read = snd r, elapsed_time = t,
      text_bytes = take (snd r) (drop (fst r) inp)\<rparr>"
proof -
  let ?w = "take BUFFER_SIZE (drop (fst r) inp)"
  from assignments_member [OF assms] have b: "snd r = assign_bytes ?w" by simp
  have "snd r \<le> length ?w" unfolding b by (rule assign_bytes_le)
  then have "snd r \<le> BUFFER_SIZE" by simp
  then have buf: "take (snd r) (drop (fst r) inp) = take (snd r) ?w"
    by (simp add: min_def)
  have "child_usable (take (snd r) ?w) = assign_bytes (take (snd r) ?w)"
    by (rule child_usable_assign_bytes)
  also have "\<dots> = assign_bytes (take (assign_bytes ?w) ?w)"
    by (subst b) (rule refl)
  also have "\<dots> = assign_bytes ?w"
    by (rule assign_bytes_take)
  also have "\<dots> = snd r"
    by (rule b [symmetric])
  finally have usable: "child_usable (take (snd r) (drop (fst r) inp)) = snd r"
    by (simp only: buf)
  show ?thesis
    by (simp add: child_process_def Let_def usable)
qed

lemma consume_chunk_frame:
  "pending_chunks (consume_chunk rx c s) = pending_chunks s"
  "num_procs (consume_chunk rx c s) = num_procs s"
  "workers (consume_chunk rx c s) = workers s"
  "next_offset_to_assign (consume_chunk rx c s) = next_offset_to_assign s"
  "finished_assignments (consume_chunk rx c s) = finished_assignments s"
  "finished_children (consume_chunk rx c s) = finished_children s"
  "end_sent (consume_chunk rx c s) = end_sent s"
  "next_offset_to_process (consume_chunk rx c s) = file_offset c + bytes_read c"
  by (simp_all add: consume_chunk_def Let_def)

lemma consume_chunk_agrees:
  assumes "agrees s oc" and "text_bytes c = take (bytes_read c) (drop (file_offset c) inp)"
  shows "agrees (consume_chunk rx c s) (consume_range rx inp oc (file_offset c, bytes_read c))"
proof -
  have "(if length (text_bytes c) > 0
         then string_buffer_append (carry s) (text_bytes c) (length (text_bytes c))
         else carry s) = carry s @ text_bytes c"
    by (simp add: string_buffer_append_def)
  then show ?thesis
    using assms
    by (simp add: agrees_def consume_chunk_def consume_range_def Let_def
        write_log_entry_def log_core_def)
qed

lemma coherent_consume:
  assumes "coherent inp rx consumed inflight upcoming s"
    and pend: "pending_chunks s = c # remaining"
    and expected: "file_offset c = next_offset_to_process s"
  shows "coherent inp rx (consumed @ [(file_offset c, bytes_read c)]) (tl inflight) upcoming
     (consume_chunk rx c (s\<lparr>pending_chunks := remaining\<rparr>))"
proof -
  let ?s1 = "s\<lparr>pending_chunks := remaining\<rparr>"
  let ?s' = "consume_chunk rx c ?s1"
  let ?r = "(file_offset c, bytes_read c)"
  note parts = coherentD [OF assms(1)]
  note tiled = cursors_ok_tiled [OF parts(1)]
  have c_in: "?r \<in> set inflight"
    and c_text: "text_bytes c = take (bytes_read c) (drop (file_offset c) inp)"
    using parts(2) pend by (simp_all add: pending_ok_def)
  then obtain h rest_in where infl: "inflight = h # rest_in"
    by (cases inflight) auto
  have "?r = h"
    using tiled_head_unique [of "next_offset_to_process s" h rest_in ?r] tiled c_in expected infl
    by simp
  then have infl': "inflight = ?r # tl inflight"
    using infl by simp
  have later: "fst q > file_offset c" if "q \<in> set (tl inflight)" for q
  proof -
    have "tiled (next_offset_to_process s + bytes_read c) (tl inflight)"
      using tiled infl' by (metis snd_conv tiled.simps(2))
    from tiled_member [OF this that] infl' tiled expected show ?thesis
      by (metis add.commute fst_conv less_add_same_cancel2 less_le_trans snd_conv tiled.simps(2))
  qed
  have rem_later: "file_offset c < file_offset d" if "d \<in> set remaining" for d
    using parts(2) pend that by (auto simp: pending_ok_def)
  have frame: "pending_chunks ?s' = remaining" "num_procs ?s' = num_procs s"
    "workers ?s' = workers s" "next_offset_to_assign ?s' = next_offset_to_assign s"
    "finished_assignments ?s' = finished_assignments s"
    "finished_children ?s' = finished_children s"
    "next_offset_to_process ?s' = file_offset c + bytes_read c"
    by (simp_all add: consume_chunk_frame)
  have "cursors_ok inp rx (consumed @ [?r]) (tl inflight) upcoming ?s'"
  proof -
    have a: "assignments inp 0 = (consumed @ [?r]) @ tl inflight @ upcoming"
      using parts(1) infl' by (metis append.assoc append_Cons append_Nil cursors_ok_def)
    have "total inflight = bytes_read c + total (tl inflight)"
      by (subst infl') simp
    then have b: "next_offset_to_assign ?s' = total (consumed @ [?r]) + total (tl inflight)"
      using parts(1) by (simp add: cursors_ok_def frame)
    have c: "next_offset_to_process ?s' = total (consumed @ [?r])"
      using parts(1) expected by (simp add: cursors_ok_def frame)
    have "agrees ?s1 (sequential rx inp consumed)"
      using parts(1) by (simp add: cursors_ok_def agrees_def)
    from consume_chunk_agrees [OF this c_text, of rx]
    have d: "agrees ?s' (sequential rx inp (consumed @ [?r]))"
      by (simp add: sequential_def)
    from a b c d show ?thesis
      unfolding cursors_ok_def by blast
  qed
  moreover have "pending_ok inp (tl inflight) ?s'"
    unfolding pending_ok_def frame
  proof (intro conjI ballI)
    show "sorted_wrt (<) (map file_offset remaining)"
      using parts(2) pend by (simp add: pending_ok_def)
  next
    fix d
    assume d: "d \<in> set remaining"
    then have "(file_offset d, bytes_read d) \<in> set inflight"
      using parts(2) pend by (simp add: pending_ok_def)
    moreover have "(file_offset d, bytes_read d) \<noteq> ?r"
      using rem_later [OF d] by auto
    ultimately show "(file_offset d, bytes_read d) \<in> set (tl inflight)"
      using infl' by (metis set_ConsD)
  next
    fix d
    assume "d \<in> set remaining"
    then show "text_bytes d = take (bytes_read d) (drop (file_offset d) inp)"
      using parts(2) pend by (simp add: pending_ok_def)
  qed
  moreover have "workers_ok (tl inflight) ?s'"
    unfolding workers_ok_def frame
  proof (intro allI impI)
    fix j off b
    assume j: "j < num_procs s" and rep: "workers s j = Reporting off b"
    from parts(3) j rep have
      a1: "(off, b) \<in> set inflight" and
      a2: "off \<notin> file_offset ` set (pending_chunks s)" and
      a3: "\<forall>k off' b'. k < num_procs s \<longrightarrow> k \<noteq> j \<longrightarrow> workers s k = Reporting off' b' \<longrightarrow> off' \<noteq> off"
      unfolding workers_ok_def by blast+
    from a2 pend have "off \<noteq> file_offset c" by auto
    with a1 infl' have "(off, b) \<in> set (tl inflight)"
      by (metis fst_conv set_ConsD)
    moreover from a2 pend have "off \<notin> file_offset ` set remaining" by auto
    ultimately show "(off, b) \<in> set (tl inflight) \<and> off \<notin> file_offset ` set remaining \<and>
        (\<forall>k off' b'. k < num_procs s \<longrightarrow> k \<noteq> j \<longrightarrow> workers s k = Reporting off' b' \<longrightarrow> off' \<noteq> off)"
      using a3 by blast
  qed
  moreover have "covered (tl inflight) ?s'"
    unfolding covered_def frame
  proof
    fix q
    assume q: "q \<in> set (tl inflight)"
    then have "q \<in> set inflight" using infl' by (metis list.set_intros(2))
    with parts(4) have "(\<exists>d \<in> set (pending_chunks s). file_offset d = fst q \<and> bytes_read d = snd q) \<or>
        (\<exists>k < num_procs s. workers s k = Reporting (fst q) (snd q))"
      unfolding covered_def by blast
    moreover have "\<not> (file_offset c = fst q)"
      using later [OF q] by simp
    ultimately show "(\<exists>d \<in> set remaining. file_offset d = fst q \<and> bytes_read d = snd q) \<or>
        (\<exists>k < num_procs s. workers s k = Reporting (fst q) (snd q))"
      using pend by auto
  qed
  moreover have "control_ok upcoming ?s'"
    using parts(5) by (simp add: control_ok_def frame)
  ultimately show ?thesis
    by (simp add: coherent_def)
qed

lemma drain_ready_None:
  "pop_expected_chunk (pending_chunks s) (next_offset_to_process s) = None \<Longrightarrow>
     drain_ready rx s = s"
  by (subst drain_ready.simps) simp

lemma drain_ready_Some:
  "pop_expected_chunk (pending_chunks s) (next_offset_to_process s) = Some (c, remaining) \<Longrightarrow>
     drain_ready rx s = drain_ready rx (consume_chunk rx c (s\<lparr>pending_chunks := remaining\<rparr>))"
  by (subst drain_ready.simps) simp

lemma pop_expected_chunk_Some:
  "pop_expected_chunk xs e = Some (c, remaining) \<longleftrightarrow> xs = c # remaining \<and> file_offset c = e"
  by (cases xs) auto

lemma coherent_drain_ready:
  "coherent inp rx consumed inflight upcoming s \<Longrightarrow>
     \<exists>consumed' inflight'. coherent inp rx consumed' inflight' upcoming (drain_ready rx s)"
proof (induction rx s arbitrary: consumed inflight rule: drain_ready.induct)
  case (1 rx s)
  show ?case
  proof (cases "pop_expected_chunk (pending_chunks s) (next_offset_to_process s)")
    case None
    with "1.prems" show ?thesis by (auto simp: drain_ready_None)
  next
    case (Some popped)
    obtain c remaining where popped: "popped = (c, remaining)" by (cases popped)
    with Some have pend: "pending_chunks s = c # remaining"
      and expected: "file_offset c = next_offset_to_process s"
      by (simp_all add: pop_expected_chunk_Some)
    from coherent_consume [OF "1.prems" pend expected]
    have "\<exists>consumed' inflight'. coherent inp rx consumed' inflight' upcoming
        (drain_ready rx (consume_chunk rx c (s\<lparr>pending_chunks := remaining\<rparr>)))"
      by (rule "1.IH" [OF Some popped [symmetric]])
    then show ?thesis
      using Some popped by (simp add: drain_ready_Some)
  qed
qed

lemma drain_ready_settled:
  "pop_expected_chunk (pending_chunks (drain_ready rx s))
     (next_offset_to_process (drain_ready rx s)) = None"
proof (induction rx s rule: drain_ready.induct)
  case (1 rx s)
  show ?case
  proof (cases "pop_expected_chunk (pending_chunks s) (next_offset_to_process s)")
    case None
    then show ?thesis by (simp add: drain_ready_None)
  next
    case (Some popped)
    obtain c remaining where popped: "popped = (c, remaining)" by (cases popped)
    from "1.IH" [OF Some popped [symmetric]] Some popped show ?thesis
      by (simp add: drain_ready_Some)
  qed
qed

lemma coherent_handle_result:
  assumes "coherent inp rx consumed inflight upcoming s"
    and "workers s i = Reporting off b" and "i < num_procs s"
  shows "\<exists>consumed' inflight'. coherent inp rx consumed' inflight' upcoming
     (handle_result inp rx i off b t s)"
proof -
  note parts = coherentD [OF assms(1)]
  let ?c = "child_process inp i off b t"
  let ?s1 = "s\<lparr>pending_chunks := insert_chunk_sorted (pending_chunks s) ?c,
      workers := (workers s)(i := Requesting)\<rparr>"
  from parts(3) assms(2,3) have
    a1: "(off, b) \<in> set inflight" and
    a2: "off \<notin> file_offset ` set (pending_chunks s)" and
    a3: "\<And>k off' b'. k < num_procs s \<Longrightarrow> k \<noteq> i \<Longrightarrow> workers s k = Reporting off' b' \<Longrightarrow> off' \<noteq> off"
    unfolding workers_ok_def by blast+
  have "(off, b) \<in> set (assignments inp 0)"
    using a1 parts(1) by (simp add: cursors_ok_def)
  from child_process_assigned [OF this, of i t]
  have c: "?c = \<lparr>process_id = i, file_offset = off, bytes_read = b, elapsed_time = t,
      text_bytes = take b (drop off inp)\<rparr>"
    by simp
  then have c_fields: "file_offset ?c = off" "bytes_read ?c = b"
    "text_bytes ?c = take b (drop off inp)"
    by simp_all
  have "cursors_ok inp rx consumed inflight upcoming ?s1"
    using parts(1) by (rule cursors_ok_frame) simp_all
  moreover have "pending_ok inp inflight ?s1"
    using parts(2) a1 a2 c_fields
    by (simp add: pending_ok_def insert_chunk_sorted_set insert_chunk_sorted_sorted)
  moreover have "workers_ok inflight ?s1"
    unfolding workers_ok_def
  proof (intro allI impI)
    fix j off' b'
    assume j: "j < num_procs ?s1" and rep: "workers ?s1 j = Reporting off' b'"
    then have ji: "j \<noteq> i" by auto
    with j rep have old: "j < num_procs s" "workers s j = Reporting off' b'" by simp_all
    from parts(3) old have
      b1: "(off', b') \<in> set inflight" and
      b2: "off' \<notin> file_offset ` set (pending_chunks s)" and
      b3: "\<And>k off'' b''. k < num_procs s \<Longrightarrow> k \<noteq> j \<Longrightarrow> workers s k = Reporting off'' b'' \<Longrightarrow> off'' \<noteq> off'"
      unfolding workers_ok_def by blast+
    have "off' \<noteq> off" using a3 [OF old(1) ji old(2)] .
    with b2 have "off' \<notin> file_offset ` set (pending_chunks ?s1)"
      by (simp add: insert_chunk_sorted_set c_fields)
    moreover have "\<forall>k off'' b''. k < num_procs ?s1 \<longrightarrow> k \<noteq> j \<longrightarrow>
        workers ?s1 k = Reporting off'' b'' \<longrightarrow> off'' \<noteq> off'"
      using b3 by (auto split: if_splits)
    ultimately show "(off', b') \<in> set inflight \<and> off' \<notin> file_offset ` set (pending_chunks ?s1) \<and>
        (\<forall>k off'' b''. k < num_procs ?s1 \<longrightarrow> k \<noteq> j \<longrightarrow>
           workers ?s1 k = Reporting off'' b'' \<longrightarrow> off'' \<noteq> off')"
      using b1 by blast
  qed
  moreover have "covered inflight ?s1"
    unfolding covered_def
  proof
    fix q
    assume "q \<in> set inflight"
    with parts(4) have "(\<exists>d \<in> set (pending_chunks s). file_offset d = fst q \<and> bytes_read d = snd q) \<or>
        (\<exists>k < num_procs s. workers s k = Reporting (fst q) (snd q))"
      unfolding covered_def by blast
    then show "(\<exists>d \<in> set (pending_chunks ?s1). file_offset d = fst q \<and> bytes_read d = snd q) \<or>
        (\<exists>k < num_procs ?s1. workers ?s1 k = Reporting (fst q) (snd q))"
    proof
      assume "\<exists>d \<in> set (pending_chunks s). file_offset d = fst q \<and> bytes_read d = snd q"
      then show ?thesis by (auto simp: insert_chunk_sorted_set)
    next
      assume "\<exists>k < num_procs s. workers s k = Reporting (fst q) (snd q)"
      then obtain k where k: "k < num_procs s" "workers s k = Reporting (fst q) (snd q)"
        by blast
      show ?thesis
      proof (cases "k = i")
        case True
        with k assms(2) have "fst q = off" "snd q = b" by simp_all
        then have "file_offset ?c = fst q \<and> bytes_read ?c = snd q"
          using c_fields by simp
        then show ?thesis by (auto simp: insert_chunk_sorted_set)
      next
        case False
        with k have "k < num_procs ?s1 \<and> workers ?s1 k = Reporting (fst q) (snd q)"
          by simp
        then show ?thesis by blast
      qed
    qed
  qed
  moreover have "control_ok upcoming ?s1"
  proof -
    have gone: "workers ?s1 j = Gone \<longleftrightarrow> workers s j = Gone" for j
      using assms(2) by (cases "j = i") simp_all
    have exiting: "workers ?s1 j = Exiting \<longleftrightarrow> workers s j = Exiting" for j
      using assms(2) by (cases "j = i") simp_all
    show ?thesis
      using parts(5) unfolding control_ok_def gone exiting by simp
  qed
  ultimately have "coherent inp rx consumed inflight upcoming ?s1"
    by (simp add: coherent_def)
  from coherent_drain_ready [OF this] show ?thesis
    by (simp add: handle_result_def Let_def)
qed

subsection \<open>Every state of a run is coherent\<close>

lemma num_procs_handle_message [simp]:
  "num_procs (handle_message inp rx ev s) = num_procs s"
proof -
  have drain: "num_procs (drain_ready rx' s') = num_procs s'" for rx' and s' :: "'a coordinator"
  proof (induction rx' s' rule: drain_ready.induct)
    case (1 rx' s')
    show ?case
    proof (cases "pop_expected_chunk (pending_chunks s') (next_offset_to_process s')")
      case None
      then show ?thesis by (simp add: drain_ready_None)
    next
      case (Some popped)
      obtain c remaining where popped: "popped = (c, remaining)" by (cases popped)
      from "1.IH" [OF Some popped [symmetric]] Some popped show ?thesis
        by (simp add: drain_ready_Some consume_chunk_frame)
    qed
  qed
  show ?thesis
    by (simp add: handle_message_def handle_request_def send_end_def handle_result_def
        handle_eof_def Let_def drain split: worker.splits)
qed

lemma coherent_handle_message:
  assumes "coherent inp rx consumed inflight upcoming s" and "readable ev s"
  shows "\<exists>consumed' inflight' upcoming'.
     coherent inp rx consumed' inflight' upcoming' (handle_message inp rx ev s)"
proof (cases "workers s (fst ev)")
  case Requesting
  from coherent_handle_request [OF assms(1) Requesting] assms(2) Requesting show ?thesis
    by (auto simp: handle_message_def readable_def)
next
  case (Reporting off b)
  from coherent_handle_result [OF assms(1) Reporting, where t = "snd ev"] assms(2) Reporting
  show ?thesis
    by (auto simp: handle_message_def readable_def)
next
  case Exiting
  from coherent_handle_eof [OF assms(1) _ Exiting] assms(2) Exiting show ?thesis
    by (auto simp: handle_message_def readable_def)
next
  case Gone
  with assms show ?thesis by (auto simp: handle_message_def)
next
  case Blocked
  with assms show ?thesis by (auto simp: handle_message_def)
qed

lemma reachable_coherent:
  "reachable inp rx s \<Longrightarrow> \<exists>consumed inflight upcoming. coherent inp rx consumed inflight upcoming s"
proof (induction rule: reachable.induct)
  case (start n)
  from coherent_initial [of inp rx n] show ?case by blast
next
  case (step s ev)
  then show ?case using coherent_handle_message by blast
qed

lemma reachable_num_procs:
  "reachable inp rx s \<Longrightarrow> 1 \<le> num_procs s \<and> num_procs s \<le> MAX_PROCESSES"
  by (induction rule: reachable.induct) (simp_all add: initial_def)

lemma dispatch_loop_reachable:
  "dispatch_loop inp rx evs s = Some s' \<Longrightarrow> reachable inp rx s \<Longrightarrow>
     reachable inp rx s' \<and> \<not> loop_continues s'"
proof (induction evs arbitrary: s)
  case Nil
  then show ?case by (simp split: if_splits)
next
  case (Cons ev evs)
  from Cons.prems(1) have go: "loop_continues s" "readable ev s"
    and next_state: "dispatch_loop inp rx evs (handle_message inp rx ev s) = Some s'"
    by (simp_all split: if_splits)
  from Cons.prems(2) go have "reachable inp rx (handle_message inp rx ev s)"
    by (rule reachable.step)
  with next_state show ?case by (rule Cons.IH)
qed

subsection \<open>The end of a run\<close>

lemma all_gone:
  assumes "control_ok upcoming s" and "\<not> loop_continues s" and "i < num_procs s"
  shows "workers s i = Gone"
proof (cases "list_ex (\<lambda>i. workers s i \<noteq> Gone) [0..<num_procs s]")
  case False
  with assms(3) show ?thesis by (auto simp: list_ex_iff)
next
  case True
  with assms(2) have full: "num_procs s \<le> finished_children s"
    by (auto simp: loop_continues_def)
  let ?G = "{j. j < num_procs s \<and> workers s j = Gone}"
  have sub: "?G \<subseteq> {..<num_procs s}" by auto
  have "card ?G = finished_children s"
    using assms(1) by (simp add: control_ok_def)
  with full have "card {..<num_procs s} \<le> card ?G" by simp
  with sub have "?G = {..<num_procs s}"
    by (intro card_seteq) simp_all
  with assms(3) show ?thesis by auto
qed

lemma drain_ready_workers:
  "workers (drain_ready rx s) = workers s \<and> num_procs (drain_ready rx s) = num_procs s"
proof (induction rx s rule: drain_ready.induct)
  case (1 rx s)
  show ?case
  proof (cases "pop_expected_chunk (pending_chunks s) (next_offset_to_process s)")
    case None
    then show ?thesis by (simp add: drain_ready_None)
  next
    case (Some popped)
    obtain c remaining where popped: "popped = (c, remaining)" by (cases popped)
    from "1.IH" [OF Some popped [symmetric]] Some popped show ?thesis
      by (simp add: drain_ready_Some consume_chunk_frame)
  qed
qed

lemma drained_all:
  assumes "coherent inp rx consumed inflight upcoming s"
    and settled: "pop_expected_chunk (pending_chunks s) (next_offset_to_process s) = None"
    and gone: "\<And>i. i < num_procs s \<Longrightarrow> workers s i = Gone"
  shows "inflight = []"
proof (rule ccontr)
  assume "inflight \<noteq> []"
  then obtain h others where infl: "inflight = h # others" by (cases inflight) auto
  note parts = coherentD [OF assms(1)]
  from cursors_ok_tiled [OF parts(1)] infl have h: "fst h = next_offset_to_process s"
    by simp
  have "h \<in> set inflight" using infl by simp
  with parts(4) gone obtain d where d: "d \<in> set (pending_chunks s)" "file_offset d = fst h"
    unfolding covered_def by fastforce
  then obtain x xs where pend: "pending_chunks s = x # xs" by (cases "pending_chunks s") auto
  with settled have x: "file_offset x \<noteq> next_offset_to_process s" by (simp split: if_splits)
  have "(file_offset x, bytes_read x) \<in> set inflight"
    using parts(2) pend by (simp add: pending_ok_def)
  from inflight_bounds(1) [OF parts(1) this] have lower: "next_offset_to_process s \<le> file_offset x"
    by simp
  have "d \<noteq> x" using d h x by auto
  with d pend have "d \<in> set xs" by simp
  moreover have "sorted_wrt (<) (map file_offset (x # xs))"
    using parts(2) pend by (simp add: pending_ok_def)
  ultimately have "file_offset x < file_offset d" by auto
  with d h lower x show False by simp
qed

lemma sequential_snoc:
  "sequential rx inp (rs @ [r]) = consume_range rx inp (sequential rx inp rs) r"
  by (simp add: sequential_def)

lemma sequential_whole:
  "tiled 0 rs \<Longrightarrow>
     out_carry (sequential rx inp rs) = rest (process_paragraphs rx (take (total rs) inp)) \<and>
     out_stdout (sequential rx inp rs) = printed (process_paragraphs rx (take (total rs) inp)) \<and>
     out_candidates (sequential rx inp rs) = tested (process_paragraphs rx (take (total rs) inp))"
proof (induction rs rule: rev_induct)
  case Nil
  then show ?case
    by (simp add: sequential_def process_paragraphs_None)
next
  case (snoc r rs)
  from snoc.prems have tiled_rs: "tiled 0 rs" and r: "fst r = total rs"
    by (simp_all add: tiled_append)
  note ih = snoc.IH [OF tiled_rs]
  let ?before = "take (total rs) inp"
  let ?chunk = "take (snd r) (drop (fst r) inp)"
  have whole: "take (total (rs @ [r])) inp = ?before @ ?chunk"
    by (simp add: r take_add)
  show ?case
    unfolding whole sequential_snoc
    by (subst (1 2 3) process_paragraphs_append) (simp add: consume_range_def Let_def ih)
qed

lemma sequential_log_length:
  "length (out_log (sequential rx inp rs)) = length rs"
  by (induction rs rule: rev_induct)
     (simp_all add: sequential_def consume_range_def Let_def)

text \<open>What a complete run leaves, whatever its schedule.\<close>

lemma main_outcome:
  assumes "main rx inp n evs = Inr s"
  shows "stdout s = printed (process_paragraphs rx inp) @
           printed (flush_remaining_paragraph rx (rest (process_paragraphs rx inp)))"
    and "candidates s = tested (process_paragraphs rx inp) @
           tested (flush_remaining_paragraph rx (rest (process_paragraphs rx inp)))"
    and "map log_core (logfile s) = out_log (sequential rx inp (assignments inp 0))"
proof -
  from assms have n: "1 \<le> n" "n \<le> MAX_PROCESSES"
    by (simp_all add: main_def split: if_splits)
  with assms obtain s0 where loop: "dispatch_loop inp rx evs (initial n) = Some s0"
    and s: "s = terminal_flush rx (drain_ready rx s0)"
    by (auto simp: main_def split: if_splits option.splits)
  have "reachable inp rx (initial n :: 'a coordinator)"
    using n by (rule reachable.start)
  with loop have reach: "reachable inp rx s0" and ended: "\<not> loop_continues s0"
    using dispatch_loop_reachable by blast+
  from reachable_coherent [OF reach] obtain consumed inflight upcoming
    where coh0: "coherent inp rx consumed inflight upcoming s0" by blast
  from reachable_num_procs [OF reach] have pos: "0 < num_procs s0" by simp
  have gone0: "workers s0 i = Gone" if "i < num_procs s0" for i
    using all_gone [OF coherentD(5) [OF coh0] ended that] .
  from gone0 [OF pos] pos coherentD(5) [OF coh0] have "upcoming = []"
    unfolding control_ok_def by blast
  let ?d = "drain_ready rx s0"
  from coherent_drain_ready [OF coh0] obtain consumed' inflight'
    where coh: "coherent inp rx consumed' inflight' upcoming ?d" by blast
  have "inflight' = []"
    using coh drain_ready_settled
  proof (rule drained_all)
    fix i
    assume "i < num_procs ?d"
    then show "workers ?d i = Gone"
      using gone0 [of i] by (simp add: drain_ready_workers)
  qed
  with coh \<open>upcoming = []\<close> have all: "assignments inp 0 = consumed'"
    and agree: "agrees ?d (sequential rx inp consumed')"
    by (simp_all add: coherent_def cursors_ok_def)
  have tiled: "tiled 0 consumed'"
    using assignments_tiled [of 0 inp] all by simp
  have "0 + total (assignments inp 0) = length inp"
    by (rule assignments_total) simp
  then have whole: "take (total consumed') inp = inp"
    using all by simp
  from sequential_whole [OF tiled, of rx inp] whole agree
  have d: "carry ?d = rest (process_paragraphs rx inp)"
    "stdout ?d = printed (process_paragraphs rx inp)"
    "candidates ?d = tested (process_paragraphs rx inp)"
    by (simp_all add: agrees_def)
  show "stdout s = printed (process_paragraphs rx inp) @
      printed (flush_remaining_paragraph rx (rest (process_paragraphs rx inp)))"
    by (simp add: s terminal_flush_def Let_def d)
  show "candidates s = tested (process_paragraphs rx inp) @
      tested (flush_remaining_paragraph rx (rest (process_paragraphs rx inp)))"
    by (simp add: s terminal_flush_def Let_def d)
  show "map log_core (logfile s) = out_log (sequential rx inp (assignments inp 0))"
    using agree all by (simp add: s terminal_flush_def Let_def agrees_def)
qed

section \<open>Logs, cursors and paragraphs of a run\<close>

text \<open>
  Each data line of a log starts where the line before it ends, at a greater offset.
\<close>

definition contiguous_log :: "'t log_entry list \<Rightarrow> bool" where
  "contiguous_log lg \<longleftrightarrow>
     (\<forall>k. Suc k < length lg \<longrightarrow>
        log_file_offset (lg ! Suc k) = log_file_offset (lg ! k) + log_bytes_read (lg ! k) \<and>
        log_file_offset (lg ! k) < log_file_offset (lg ! Suc k))"

lemma sequential_log_ranges:
  "map (\<lambda>e. (fst e, fst (snd e))) (out_log (sequential rx inp rs)) = rs"
  by (induction rs rule: rev_induct)
     (simp_all add: sequential_def consume_range_def Let_def)

lemma tiled_nth:
  "tiled start rs \<Longrightarrow> Suc k < length rs \<Longrightarrow>
     fst (rs ! Suc k) = fst (rs ! k) + snd (rs ! k) \<and> 0 < snd (rs ! k)"
proof (induction rs arbitrary: start k)
  case Nil
  then show ?case by simp
next
  case (Cons r rs)
  show ?case
  proof (cases k)
    case 0
    with Cons.prems show ?thesis by (cases rs) auto
  next
    case (Suc j)
    with Cons.prems Cons.IH [of "start + snd r" j] show ?thesis by simp
  qed
qed

lemma coherent_contiguous_log:
  assumes "coherent inp rx consumed inflight upcoming s"
  shows "contiguous_log (logfile s)"
  unfolding contiguous_log_def
proof (intro allI impI)
  fix k
  assume k: "Suc k < length (logfile s)"
  note parts = coherentD [OF assms]
  have "tiled 0 (consumed @ inflight @ upcoming)"
    using parts(1) assignments_tiled [of 0 inp] by (simp add: cursors_ok_def)
  then have tiled: "tiled 0 consumed" by (simp add: tiled_append)
  have logs: "map log_core (logfile s) = out_log (sequential rx inp consumed)"
    using parts(1) by (simp add: cursors_ok_def agrees_def)
  have "map (\<lambda>e. (fst e, fst (snd e))) (map log_core (logfile s)) = consumed"
    unfolding logs by (rule sequential_log_ranges)
  then have ranges: "map (\<lambda>e. (log_file_offset e, log_bytes_read e)) (logfile s) = consumed"
    by (simp add: log_core_def comp_def)
  have len: "length consumed = length (logfile s)"
    unfolding ranges [symmetric] by simp
  have nth: "consumed ! j = (log_file_offset (logfile s ! j), log_bytes_read (logfile s ! j))"
    if "j < length (logfile s)" for j
    using nth_map [OF that, of "\<lambda>e. (log_file_offset e, log_bytes_read e)"]
    unfolding ranges by simp
  from tiled_nth [OF tiled, of k] k len
  have "fst (consumed ! Suc k) = fst (consumed ! k) + snd (consumed ! k) \<and> 0 < snd (consumed ! k)"
    by simp
  then show "log_file_offset (logfile s ! Suc k) =
      log_file_offset (logfile s ! k) + log_bytes_read (logfile s ! k) \<and>
      log_file_offset (logfile s ! k) < log_file_offset (logfile s ! Suc k)"
    using k by (simp add: nth)
qed

lemma main_run:
  assumes "main rx inp n evs = Inr s"
  obtains s0 where "reachable inp rx s0" and "\<not> loop_continues s0"
    and "s = terminal_flush rx (drain_ready rx s0)"
    and "dispatch_loop inp rx evs (initial n) = Some s0"
proof -
  from assms have n: "1 \<le> n" "n \<le> MAX_PROCESSES"
    by (simp_all add: main_def split: if_splits)
  with assms obtain s0 where loop: "dispatch_loop inp rx evs (initial n) = Some s0"
    and s: "s = terminal_flush rx (drain_ready rx s0)"
    by (auto simp: main_def split: if_splits option.splits)
  have "reachable inp rx (initial n :: 'a coordinator)"
    using n by (rule reachable.start)
  with loop have "reachable inp rx s0" and "\<not> loop_continues s0"
    using dispatch_loop_reachable by blast+
  then show thesis using s loop by (rule that)
qed

lemma drain_ready_cursors:
  "next_offset_to_process s \<le> next_offset_to_process (drain_ready rx s) \<and>
   next_offset_to_assign (drain_ready rx s) = next_offset_to_assign s \<and>
   length (logfile s) \<le> length (logfile (drain_ready rx s)) \<and>
   (next_offset_to_process (drain_ready rx s) \<noteq> next_offset_to_process s \<longrightarrow>
      length (logfile s) < length (logfile (drain_ready rx s)))"
proof (induction rx s rule: drain_ready.induct)
  case (1 rx s)
  show ?case
  proof (cases "pop_expected_chunk (pending_chunks s) (next_offset_to_process s)")
    case None
    then show ?thesis by (simp add: drain_ready_None)
  next
    case (Some popped)
    obtain c remaining where popped: "popped = (c, remaining)" by (cases popped)
    with Some have expected: "file_offset c = next_offset_to_process s"
      by (simp add: pop_expected_chunk_Some)
    let ?s1 = "consume_chunk rx c (s\<lparr>pending_chunks := remaining\<rparr>)"
    have step: "next_offset_to_process ?s1 = next_offset_to_process s + bytes_read c"
      "next_offset_to_assign ?s1 = next_offset_to_assign s"
      "length (logfile ?s1) = Suc (length (logfile s))"
      using expected by (simp_all add: consume_chunk_def Let_def write_log_entry_def)
    from "1.IH" [OF Some popped [symmetric]] step Some popped show ?thesis
      by (simp add: drain_ready_Some)
  qed
qed

lemma sequential_found:
  "(\<exists>e \<in> set (out_log (sequential rx inp rs)). snd (snd e)) \<longleftrightarrow>
     (\<exists>p \<in> set (out_candidates (sequential rx inp rs)). rx (c_str p))"
proof (induction rs rule: rev_induct)
  case Nil
  then show ?case by (simp add: sequential_def)
next
  case (snoc r rs)
  then show ?case
    by (auto simp: sequential_snoc consume_range_def Let_def process_paragraphs_chunk_match)
qed

text \<open>
  Following the words of the specification: the blank-line-delimited paragraphs of a
  text, read from left to right. A paragraph ends before the first two consecutive line
  delimiters after its start; what follows the last such pair is a paragraph when it is
  not empty.
\<close>

fun paragraphs_from :: "string \<Rightarrow> string \<Rightarrow> string list" where
  "paragraphs_from cur [] = (if cur = [] then [] else [cur])"
| "paragraphs_from cur [a] = [cur @ [a]]"
| "paragraphs_from cur (a # b # bs) =
     (if a = NL \<and> b = NL then cur # paragraphs_from [] bs
      else paragraphs_from (cur @ [a]) (b # bs))"

definition paragraphs :: "string \<Rightarrow> string list" where
  "paragraphs txt = paragraphs_from [] txt"

lemma paragraphs_from_find:
  "paragraphs_from cur s =
     (case find_double_newline s of
        None \<Rightarrow> (if cur @ s = [] then [] else [cur @ s])
      | Some i \<Rightarrow> (cur @ take i s) # paragraphs_from [] (drop (Suc (Suc i)) s))"
proof (induction cur s rule: paragraphs_from.induct)
  case (1 cur)
  then show ?case by simp
next
  case (2 cur a)
  then show ?case by simp
next
  case (3 cur a b bs)
  show ?case
  proof (cases "a = NL \<and> b = NL")
    case True
    then show ?thesis by simp
  next
    case False
    with 3 show ?thesis
      by (cases "find_double_newline (b # bs)") auto
  qed
qed

lemma flush_tested:
  "tested (flush_remaining_paragraph rx cb) = (if cb = [] then [] else [cb])"
  by (simp add: flush_remaining_paragraph_def Let_def)

lemma process_paragraphs_paragraphs:
  "tested (process_paragraphs rx cb) @
     tested (flush_remaining_paragraph rx (rest (process_paragraphs rx cb))) = paragraphs cb"
proof (induction cb rule: process_paragraphs_induct)
  case (None cb)
  then show ?case
    by (simp add: process_paragraphs_None flush_tested paragraphs_def paragraphs_from_find)
next
  case (Some cb i)
  then show ?case
    by (simp add: process_paragraphs_Some flush_tested paragraphs_def
        paragraphs_from_find [of "[]" cb])
qed

lemma consume_chunk_carry:
  "carry (consume_chunk rx c s) = rest (process_paragraphs rx (carry s @ text_bytes c))"
  "candidates (consume_chunk rx c s) =
     candidates s @ tested (process_paragraphs rx (carry s @ text_bytes c))"
  by (simp_all add: consume_chunk_def Let_def string_buffer_append_def)

lemma process_paragraphs_rest_idem:
  "find_double_newline cb = None \<Longrightarrow> rest (process_paragraphs rx cb) = cb \<and>
     tested (process_paragraphs rx cb) = []"
  by (simp add: process_paragraphs_None)

lemma foldl_consume_chunk:
  "find_double_newline (carry s) = None \<Longrightarrow>
     carry (foldl (\<lambda>st c. consume_chunk rx c st) s cs) =
       rest (process_paragraphs rx (carry s @ concat (map text_bytes cs))) \<and>
     candidates (foldl (\<lambda>st c. consume_chunk rx c st) s cs) =
       candidates s @ tested (process_paragraphs rx (carry s @ concat (map text_bytes cs)))"
proof (induction cs arbitrary: s)
  case Nil
  then show ?case by (simp add: process_paragraphs_rest_idem)
next
  case (Cons c cs)
  let ?s1 = "consume_chunk rx c s"
  have settled: "find_double_newline (carry ?s1) = None"
    by (simp add: consume_chunk_carry process_paragraphs_rest_settled)
  note ih = Cons.IH [OF settled]
  have split: "process_paragraphs rx ((carry s @ text_bytes c) @ concat (map text_bytes cs)) =
      \<lparr>rest = rest (process_paragraphs rx (carry ?s1 @ concat (map text_bytes cs))),
       chunk_match = (chunk_match (process_paragraphs rx (carry s @ text_bytes c)) \<or>
         chunk_match (process_paragraphs rx (carry ?s1 @ concat (map text_bytes cs)))),
       printed = printed (process_paragraphs rx (carry s @ text_bytes c)) @
         printed (process_paragraphs rx (carry ?s1 @ concat (map text_bytes cs))),
       tested = tested (process_paragraphs rx (carry s @ text_bytes c)) @
         tested (process_paragraphs rx (carry ?s1 @ concat (map text_bytes cs)))\<rparr>"
    unfolding consume_chunk_carry by (rule process_paragraphs_append)
  have flat: "carry s @ concat (map text_bytes (c # cs)) =
      (carry s @ text_bytes c) @ concat (map text_bytes cs)"
    by simp
  show ?case
    unfolding flat split using ih by (simp add: consume_chunk_carry)
qed

lemma c_str_no_NUL: "NUL \<notin> set p \<Longrightarrow> c_str p = p"
  by (auto simp: c_str_def takeWhile_eq_all_conv)

lemma process_paragraphs_bytes:
  "(\<forall>p \<in> set (tested (process_paragraphs rx cb)). set p \<subseteq> set cb) \<and>
   set (rest (process_paragraphs rx cb)) \<subseteq> set cb"
proof (induction cb rule: process_paragraphs_induct)
  case (None cb)
  then show ?case by (simp add: process_paragraphs_None)
next
  case (Some cb i)
  have "set (take i cb) \<subseteq> set cb" by (rule set_take_subset)
  moreover have "set (drop (Suc (Suc i)) cb) \<subseteq> set cb" by (rule set_drop_subset)
  ultimately show ?case
    using Some.IH by (auto simp: process_paragraphs_Some [OF Some.hyps])
qed

lemma paragraph_no_trailing_newline:
  assumes "find_double_newline cb = Some i"
  shows "take i cb = [] \<or> last (take i cb) \<noteq> NL"
proof (cases i)
  case 0
  then show ?thesis by simp
next
  case (Suc j)
  from find_double_newline_le [OF assms] have len: "i + 2 \<le> length cb" .
  from find_double_newline_at [OF assms] have at: "cb ! i = NL" by simp
  from find_double_newline_first [OF assms, of j] Suc at have "cb ! j \<noteq> NL" by simp
  moreover have "take i cb \<noteq> []" using Suc len by auto
  then have "last (take i cb) = take i cb ! (length (take i cb) - 1)"
    by (rule last_conv_nth)
  then have "last (take i cb) = cb ! j"
    using Suc len by (simp add: min_def)
  ultimately show ?thesis by simp
qed

lemma process_paragraphs_tested_shape:
  "\<forall>p \<in> set (tested (process_paragraphs rx cb)). p = [] \<or> last p \<noteq> NL"
proof (induction cb rule: process_paragraphs_induct)
  case (None cb)
  then show ?case by (simp add: process_paragraphs_None)
next
  case (Some cb i)
  from paragraph_no_trailing_newline [OF Some.hyps] Some.IH show ?case
    by (simp add: process_paragraphs_Some [OF Some.hyps])
qed

lemma settled_no_blank_line_end:
  assumes "find_double_newline r = None"
  shows "\<not> (\<exists>x. r = x @ [NL, NL])"
proof
  assume "\<exists>x. r = x @ [NL, NL]"
  then obtain x where r: "r = x @ [NL, NL]" by blast
  then have "Suc (length x) < length r" "r ! length x = NL" "r ! Suc (length x) = NL"
    by (simp_all add: nth_append)
  with find_double_newline_none [OF assms, of "length x"] show False by simp
qed

lemma process_paragraphs_printed_plain:
  assumes "NUL \<notin> set cb"
  shows "printed (process_paragraphs rx cb) =
     concat (map (\<lambda>p. p @ [NL, NL]) (filter rx (tested (process_paragraphs rx cb))))"
proof -
  have plain: "c_str p = p" if "p \<in> set (tested (process_paragraphs rx cb))" for p
    using process_paragraphs_bytes [of rx cb] that assms by (intro c_str_no_NUL) auto
  have same_filter: "filter (\<lambda>p. rx (c_str p)) (tested (process_paragraphs rx cb)) =
      filter rx (tested (process_paragraphs rx cb))"
    by (rule filter_cong) (simp_all add: plain)
  have same_map: "map (\<lambda>p. c_str p @ [NL, NL]) (filter rx (tested (process_paragraphs rx cb))) =
      map (\<lambda>p. p @ [NL, NL]) (filter rx (tested (process_paragraphs rx cb)))"
    by (rule map_cong) (simp_all add: plain)
  have "printed (process_paragraphs rx cb) =
      concat (map (\<lambda>p. c_str p @ [NL, NL])
        (filter (\<lambda>p. rx (c_str p)) (tested (process_paragraphs rx cb))))"
    by (rule process_paragraphs_printed)
  also have "\<dots> = concat (map (\<lambda>p. c_str p @ [NL, NL])
      (filter rx (tested (process_paragraphs rx cb))))"
    by (simp only: same_filter)
  also have "\<dots> = concat (map (\<lambda>p. p @ [NL, NL])
      (filter rx (tested (process_paragraphs rx cb))))"
    by (simp only: same_map)
  finally show ?thesis .
qed

lemma flush_printed_plain:
  assumes "NUL \<notin> set r"
  shows "printed (flush_remaining_paragraph rx r) =
     (if r \<noteq> [] \<and> rx r then (if last r = NL then r else r @ [NL]) else [])"
  using assms
  by (auto simp: flush_remaining_paragraph_def Let_def c_str_no_NUL last_conv_nth)

lemma double_newline_split:
  assumes "find_double_newline cb = Some i"
  shows "take i cb @ [NL, NL] @ drop (Suc (Suc i)) cb = cb"
proof -
  from find_double_newline_le [OF assms] have len: "i < length cb" "Suc i < length cb"
    by simp_all
  from find_double_newline_at [OF assms] have at: "cb ! i = NL" "cb ! Suc i = NL"
    by simp_all
  have "cb = take i cb @ cb ! i # drop (Suc i) cb"
    using len(1) by (rule id_take_nth_drop)
  also have "drop (Suc i) cb = cb ! Suc i # drop (Suc (Suc i)) cb"
    using len(2) by (rule Cons_nth_drop_Suc [symmetric])
  finally show ?thesis
    using at by simp
qed

lemma process_paragraphs_rebuild:
  "concat (map (\<lambda>p. p @ [NL, NL]) (tested (process_paragraphs rx cb))) @
     rest (process_paragraphs rx cb) = cb"
proof (induction cb rule: process_paragraphs_induct)
  case (None cb)
  then show ?case by (simp add: process_paragraphs_None)
next
  case (Some cb i)
  from double_newline_split [OF Some.hyps] Some.IH show ?case
    by (simp add: process_paragraphs_Some [OF Some.hyps])
qed

lemma workers_handle_message_other:
  "j \<noteq> fst ev \<Longrightarrow> workers (handle_message inp rx ev s) j = workers s j"
  by (simp add: handle_message_def handle_request_def send_end_def handle_result_def
      handle_eof_def Let_def drain_ready_workers split: worker.splits)

lemma reachable_no_worker:
  "reachable inp rx s \<Longrightarrow> num_procs s \<le> i \<Longrightarrow> workers s i = Gone"
proof (induction rule: reachable.induct)
  case (start n)
  then show ?case by (simp add: initial_def)
next
  case (step s ev)
  from step.hyps(3) have "fst ev < num_procs s" by (simp add: readable_def)
  with step.prems have "i \<noteq> fst ev" by simp
  with step show ?case by (simp add: workers_handle_message_other)
qed

lemma reachable_handle_message_coherent:
  assumes "reachable inp rx s"
  shows "\<exists>consumed inflight upcoming.
     coherent inp rx consumed inflight upcoming (handle_message inp rx ev s)"
proof (cases "readable ev s")
  case True
  from reachable_coherent [OF assms] True show ?thesis
    using coherent_handle_message by blast
next
  case False
  then have "workers s (fst ev) = Gone \<or> workers s (fst ev) = Blocked"
    using reachable_no_worker [OF assms, of "fst ev"] by (auto simp: readable_def)
  then have "handle_message inp rx ev s = s"
    by (auto simp: handle_message_def)
  with reachable_coherent [OF assms] show ?thesis by simp
qed

lemma coherent_carry:
  assumes "coherent inp rx consumed inflight upcoming s"
  shows "carry s = rest (process_paragraphs rx (take (next_offset_to_process s) inp))"
proof -
  note parts = coherentD [OF assms]
  have "tiled 0 (consumed @ inflight @ upcoming)"
    using parts(1) assignments_tiled [of 0 inp] by (simp add: cursors_ok_def)
  then have "tiled 0 consumed" by (simp add: tiled_append)
  from sequential_whole [OF this, of rx inp] parts(1) show ?thesis
    by (simp add: cursors_ok_def agrees_def)
qed

lemma carry_folded:
  assumes "carry s = rest (process_paragraphs rx (take (next_offset_to_process s) inp))"
    and "carry s' = rest (process_paragraphs rx (take (next_offset_to_process s') inp))"
    and "next_offset_to_process s \<le> next_offset_to_process s'"
  shows "carry s' = rest (process_paragraphs rx
     (carry s @ take (next_offset_to_process s' - next_offset_to_process s)
        (drop (next_offset_to_process s) inp)))"
proof -
  let ?p = "next_offset_to_process s" and ?p' = "next_offset_to_process s'"
  have "take ?p' inp = take (?p + (?p' - ?p)) inp"
    using assms(3) by simp
  also have "\<dots> = take ?p inp @ take (?p' - ?p) (drop ?p inp)"
    by (rule take_add)
  finally have "carry s' = rest (process_paragraphs rx
      (take ?p inp @ take (?p' - ?p) (drop ?p inp)))"
    using assms(2) by simp
  also have "\<dots> = rest (process_paragraphs rx
      (rest (process_paragraphs rx (take ?p inp)) @ take (?p' - ?p) (drop ?p inp)))"
    by (subst process_paragraphs_append) simp
  finally show ?thesis
    using assms(1) by simp
qed

section \<open>Sample runs\<close>

text \<open>
  Complete runs on small inputs, evaluated by the simplifier on the code equations. Each
  list of events is a schedule: the workers in the order the coordinator reads them.
\<close>

lemma sample_run_two_workers_eval:
  "(case main (\<lambda>p. True) ''ab\<newline>cd'' 2 [(0, 0::nat), (1, 0), (1, 0), (0, 0), (0, 0), (1, 0), (0, 0), (1, 0)] of
      Inl e \<Rightarrow> False
    | Inr s \<Rightarrow>
        logfile s = [\<lparr>log_process_id = 0, log_file_offset = 0, log_bytes_read = 3, log_elapsed_time = 0, log_found = False\<rparr>, \<lparr>log_process_id = 1, log_file_offset = 3, log_bytes_read = 2, log_elapsed_time = 0, log_found = False\<rparr>] \<and>
        stdout s = ''ab\<newline>cd\<newline>'' \<and>
        candidates s = [''ab\<newline>cd''])"
  by code_simp

lemma sample_run_two_workers:
  obtains s where "main (\<lambda>p. True) ''ab\<newline>cd'' 2 [(0, 0::nat), (1, 0), (1, 0), (0, 0), (0, 0), (1, 0), (0, 0), (1, 0)] = Inr s"
    and "logfile s = [\<lparr>log_process_id = 0, log_file_offset = 0, log_bytes_read = 3, log_elapsed_time = 0, log_found = False\<rparr>, \<lparr>log_process_id = 1, log_file_offset = 3, log_bytes_read = 2, log_elapsed_time = 0, log_found = False\<rparr>]"
    and "stdout s = ''ab\<newline>cd\<newline>''"
    and "candidates s = [''ab\<newline>cd'']"
  using sample_run_two_workers_eval
  by (cases "main (\<lambda>p. True) ''ab\<newline>cd'' 2 [(0, 0::nat), (1, 0), (1, 0), (0, 0), (0, 0), (1, 0), (0, 0), (1, 0)]") auto

lemma sample_run_swapped_eval:
  "(case main (\<lambda>p. True) ''ab\<newline>cd'' 2 [(1, 0::nat), (0, 0), (1, 0), (0, 0), (0, 0), (1, 0), (0, 0), (1, 0)] of
      Inl e \<Rightarrow> False
    | Inr s \<Rightarrow>
        logfile s = [\<lparr>log_process_id = 1, log_file_offset = 0, log_bytes_read = 3, log_elapsed_time = 0, log_found = False\<rparr>, \<lparr>log_process_id = 0, log_file_offset = 3, log_bytes_read = 2, log_elapsed_time = 0, log_found = False\<rparr>] \<and>
        stdout s = ''ab\<newline>cd\<newline>'' \<and>
        candidates s = [''ab\<newline>cd''])"
  by code_simp

lemma sample_run_swapped:
  obtains s where "main (\<lambda>p. True) ''ab\<newline>cd'' 2 [(1, 0::nat), (0, 0), (1, 0), (0, 0), (0, 0), (1, 0), (0, 0), (1, 0)] = Inr s"
    and "logfile s = [\<lparr>log_process_id = 1, log_file_offset = 0, log_bytes_read = 3, log_elapsed_time = 0, log_found = False\<rparr>, \<lparr>log_process_id = 0, log_file_offset = 3, log_bytes_read = 2, log_elapsed_time = 0, log_found = False\<rparr>]"
    and "stdout s = ''ab\<newline>cd\<newline>''"
    and "candidates s = [''ab\<newline>cd'']"
  using sample_run_swapped_eval
  by (cases "main (\<lambda>p. True) ''ab\<newline>cd'' 2 [(1, 0::nat), (0, 0), (1, 0), (0, 0), (0, 0), (1, 0), (0, 0), (1, 0)]") auto

lemma sample_run_flush_eval:
  "(case main (literal_word_match ''alpha'') ''alpha'' 1 [(0, 0::nat), (0, 0), (0, 0), (0, 0)] of
      Inl e \<Rightarrow> False
    | Inr s \<Rightarrow>
        logfile s = [\<lparr>log_process_id = 0, log_file_offset = 0, log_bytes_read = 5, log_elapsed_time = 0, log_found = False\<rparr>] \<and>
        stdout s = ''alpha\<newline>'' \<and>
        candidates s = [''alpha''])"
  by code_simp

lemma sample_run_flush:
  obtains s where "main (literal_word_match ''alpha'') ''alpha'' 1 [(0, 0::nat), (0, 0), (0, 0), (0, 0)] = Inr s"
    and "logfile s = [\<lparr>log_process_id = 0, log_file_offset = 0, log_bytes_read = 5, log_elapsed_time = 0, log_found = False\<rparr>]"
    and "stdout s = ''alpha\<newline>''"
    and "candidates s = [''alpha'']"
  using sample_run_flush_eval
  by (cases "main (literal_word_match ''alpha'') ''alpha'' 1 [(0, 0::nat), (0, 0), (0, 0), (0, 0)]") auto

lemma sample_run_two_records_eval:
  "(case main (\<lambda>p. True) ''a\<newline>\<newline>b'' 1 [(0, 0::nat), (0, 0), (0, 0), (0, 0), (0, 0), (0, 0)] of
      Inl e \<Rightarrow> False
    | Inr s \<Rightarrow>
        logfile s = [\<lparr>log_process_id = 0, log_file_offset = 0, log_bytes_read = 3, log_elapsed_time = 0, log_found = True\<rparr>, \<lparr>log_process_id = 0, log_file_offset = 3, log_bytes_read = 1, log_elapsed_time = 0, log_found = False\<rparr>] \<and>
        stdout s = ''a\<newline>\<newline>b\<newline>'' \<and>
        candidates s = [''a'', ''b''])"
  by code_simp

lemma sample_run_two_records:
  obtains s where "main (\<lambda>p. True) ''a\<newline>\<newline>b'' 1 [(0, 0::nat), (0, 0), (0, 0), (0, 0), (0, 0), (0, 0)] = Inr s"
    and "logfile s = [\<lparr>log_process_id = 0, log_file_offset = 0, log_bytes_read = 3, log_elapsed_time = 0, log_found = True\<rparr>, \<lparr>log_process_id = 0, log_file_offset = 3, log_bytes_read = 1, log_elapsed_time = 0, log_found = False\<rparr>]"
    and "stdout s = ''a\<newline>\<newline>b\<newline>''"
    and "candidates s = [''a'', ''b'']"
  using sample_run_two_records_eval
  by (cases "main (\<lambda>p. True) ''a\<newline>\<newline>b'' 1 [(0, 0::nat), (0, 0), (0, 0), (0, 0), (0, 0), (0, 0)]") auto



lemma sample_run_nul_eval:
  "(case main (\<lambda>p. True) [CHR ''a'', CHR 0x00, CHR ''b'', CHR 0x0A, CHR 0x0A] 1 [(0, 0::nat), (0, 0), (0, 0), (0, 0)] of
      Inl e \<Rightarrow> False
    | Inr s \<Rightarrow>
        stdout s = [CHR ''a'', CHR 0x0A, CHR 0x0A] \<and>
        candidates s = [[CHR ''a'', CHR 0x00, CHR ''b'']])"
  by code_simp

lemma sample_run_nul:
  obtains s where "main (\<lambda>p. True) [CHR ''a'', CHR 0x00, CHR ''b'', CHR 0x0A, CHR 0x0A] 1 [(0, 0::nat), (0, 0), (0, 0), (0, 0)] = Inr s"
    and "stdout s = [CHR ''a'', CHR 0x0A, CHR 0x0A]"
    and "candidates s = [[CHR ''a'', CHR 0x00, CHR ''b'']]"
  using sample_run_nul_eval
  by (cases "main (\<lambda>p. True) [CHR ''a'', CHR 0x00, CHR ''b'', CHR 0x0A, CHR 0x0A] 1 [(0, 0::nat), (0, 0), (0, 0), (0, 0)]") auto

section \<open>The claims\<close>

subsection \<open>Order of the log\<close>

text \<open>
  C1. In every state of the dispatch loop of every run, and in the state a complete run
  ends with, the data lines of the log are contiguous and strictly increasing in
  \<open>file_offset\<close>: each entry's offset is the offset of the entry before it plus that
  entry's \<open>bytes_read\<close>, and is greater than it. The events of the run, that is the
  order in which the workers' messages are read, are arbitrary.
\<close>

theorem log_offsets_contiguous:
  "(reachable inp rx s \<longrightarrow> contiguous_log (logfile s)) \<and>
   (main rx inp n evs = Inr s' \<longrightarrow> contiguous_log (logfile s'))"
proof (intro conjI impI)
  assume "reachable inp rx s"
  from reachable_coherent [OF this] show "contiguous_log (logfile s)"
    using coherent_contiguous_log by blast
next
  assume "main rx inp n evs = Inr s'"
  then obtain s0 where reach: "reachable inp rx s0"
    and s': "s' = terminal_flush rx (drain_ready rx s0)"
    by (rule main_run)
  from reachable_coherent [OF reach] obtain consumed inflight upcoming
    where "coherent inp rx consumed inflight upcoming s0" by blast
  from coherent_drain_ready [OF this] have "contiguous_log (logfile (drain_ready rx s0))"
    using coherent_contiguous_log by blast
  then show "contiguous_log (logfile s')"
    by (simp add: s' terminal_flush_def Let_def)
qed

theorem log_offsets_contiguous_witness:
  "reachable ''ab\<newline>cd'' (\<lambda>p. True) (initial 2 :: nat coordinator) \<and>
   contiguous_log (logfile (initial 2 :: nat coordinator)) \<and>
   \<not> isl (main (\<lambda>p. True) ''ab\<newline>cd'' 2 [(0, 0::nat), (1, 0), (1, 0), (0, 0), (0, 0), (1, 0), (0, 0), (1, 0)]) \<and>
   length (logfile (projr (main (\<lambda>p. True) ''ab\<newline>cd'' 2 [(0, 0::nat), (1, 0), (1, 0), (0, 0), (0, 0), (1, 0), (0, 0), (1, 0)]))) = 2 \<and>
   log_file_offset (logfile (projr (main (\<lambda>p. True) ''ab\<newline>cd'' 2 [(0, 0::nat), (1, 0), (1, 0), (0, 0), (0, 0), (1, 0), (0, 0), (1, 0)])) ! Suc 0) =
     log_file_offset (logfile (projr (main (\<lambda>p. True) ''ab\<newline>cd'' 2 [(0, 0::nat), (1, 0), (1, 0), (0, 0), (0, 0), (1, 0), (0, 0), (1, 0)])) ! 0) +
     log_bytes_read (logfile (projr (main (\<lambda>p. True) ''ab\<newline>cd'' 2 [(0, 0::nat), (1, 0), (1, 0), (0, 0), (0, 0), (1, 0), (0, 0), (1, 0)])) ! 0) \<and>
   log_file_offset (logfile (projr (main (\<lambda>p. True) ''ab\<newline>cd'' 2 [(0, 0::nat), (1, 0), (1, 0), (0, 0), (0, 0), (1, 0), (0, 0), (1, 0)])) ! 0) <
     log_file_offset (logfile (projr (main (\<lambda>p. True) ''ab\<newline>cd'' 2 [(0, 0::nat), (1, 0), (1, 0), (0, 0), (0, 0), (1, 0), (0, 0), (1, 0)])) ! Suc 0)"
proof -
  obtain s where run: "main (\<lambda>p. True) ''ab\<newline>cd'' 2 [(0, 0::nat), (1, 0), (1, 0), (0, 0), (0, 0), (1, 0), (0, 0), (1, 0)] = Inr s"
    and lg: "length (logfile s) = 2"
    using sample_run_two_workers by (metis length_Cons list.size(3) numeral_2_eq_2)
  have start: "reachable ''ab\<newline>cd'' (\<lambda>p. True) (initial 2 :: nat coordinator)"
    by (rule reachable.start) (simp_all add: MAX_PROCESSES_def)
  from log_offsets_contiguous [where inp = "''ab\<newline>cd''" and rx = "\<lambda>p. True"
      and s = "initial 2 :: nat coordinator" and n = 2 and s' = s,
      of "[(0, 0::nat), (1, 0), (1, 0), (0, 0), (0, 0), (1, 0), (0, 0), (1, 0)]"]
    start run
  have first: "contiguous_log (logfile (initial 2 :: nat coordinator))"
    and final: "contiguous_log (logfile s)"
    by blast+
  from final lg have "log_file_offset (logfile s ! Suc 0) =
      log_file_offset (logfile s ! 0) + log_bytes_read (logfile s ! 0) \<and>
      log_file_offset (logfile s ! 0) < log_file_offset (logfile s ! Suc 0)"
    unfolding contiguous_log_def by simp
  with start first lg show ?thesis
    unfolding run by simp
qed

subsection \<open>Every paragraph is extracted once\<close>

text \<open>
  C2. The spans the extraction pipeline tests (carry-buffer append and
  \<open>process_paragraphs\<close> for each chunk, then the terminal flush) are exactly the
  blank-line-delimited paragraphs of the concatenated chunk texts, in order, each once and
  with its bytes unchanged, for every way of cutting the text into chunks; and in every
  complete run of \<open>main\<close> they are the paragraphs of the input file. The spans that
  \<open>process_paragraphs\<close> extracts from a text, each with its delimiter pair, followed
  by the remainder it leaves for the flush, are the text: no byte is lost or repeated.
  (The matcher reads each span as a C string.)
\<close>

theorem paragraphs_extracted_once:
  "candidates (terminal_flush rx
      (foldl (\<lambda>st c. consume_chunk rx c st) (initial n) chunks)) =
     paragraphs (concat (map text_bytes chunks)) \<and>
   (main rx inp m evs = Inr s \<longrightarrow> candidates s = paragraphs inp) \<and>
   concat (map (\<lambda>p. p @ [NL, NL]) (tested (process_paragraphs rx inp))) @
     rest (process_paragraphs rx inp) = inp"
proof (intro conjI impI)
  let ?s = "foldl (\<lambda>st c. consume_chunk rx c st) (initial n :: 'a coordinator) chunks"
  have "find_double_newline (carry (initial n :: 'a coordinator)) = None"
    by (simp add: initial_def)
  from foldl_consume_chunk [OF this, of rx chunks]
  have "carry ?s = rest (process_paragraphs rx (concat (map text_bytes chunks)))"
    and "candidates ?s = tested (process_paragraphs rx (concat (map text_bytes chunks)))"
    by (simp_all add: initial_def)
  then show "candidates (terminal_flush rx ?s) = paragraphs (concat (map text_bytes chunks))"
    by (simp add: terminal_flush_def Let_def process_paragraphs_paragraphs)
next
  assume "main rx inp m evs = Inr s"
  from main_outcome(2) [OF this] show "candidates s = paragraphs inp"
    by (simp add: process_paragraphs_paragraphs)
next
  show "concat (map (\<lambda>p. p @ [NL, NL]) (tested (process_paragraphs rx inp))) @
      rest (process_paragraphs rx inp) = inp"
    by (rule process_paragraphs_rebuild)
qed

theorem paragraphs_extracted_once_witness:
  "\<not> isl (main (\<lambda>p. True) ''a\<newline>\<newline>b'' 1 [(0, 0::nat), (0, 0), (0, 0), (0, 0), (0, 0), (0, 0)]) \<and>
   candidates (projr (main (\<lambda>p. True) ''a\<newline>\<newline>b'' 1 [(0, 0::nat), (0, 0), (0, 0), (0, 0), (0, 0), (0, 0)])) = [''a'', ''b''] \<and>
   paragraphs ''a\<newline>\<newline>b'' = [''a'', ''b'']"
proof -
  obtain s where run: "main (\<lambda>p. True) ''a\<newline>\<newline>b'' 1 [(0, 0::nat), (0, 0), (0, 0), (0, 0), (0, 0), (0, 0)] = Inr s"
    and cands: "candidates s = [''a'', ''b'']"
    by (rule sample_run_two_records)
  from paragraphs_extracted_once [where rx = "\<lambda>p. True" and inp = "''a\<newline>\<newline>b''" and m = 1
      and s = s and n = 1 and chunks = "[] :: nat ChunkNode list",
      of "[(0, 0::nat), (0, 0), (0, 0), (0, 0), (0, 0), (0, 0)]"] run cands
  have "paragraphs ''a\<newline>\<newline>b'' = [''a'', ''b'']"
    by simp
  with cands show ?thesis
    unfolding run by simp
qed

subsection \<open>Where assigned ranges end\<close>

text \<open>
  C3 (amended). A range \<open>(off, bytes)\<close> the work distributor assigns starts at
  \<open>next_offset_to_assign\<close>, which it advances by \<open>bytes\<close>, is not empty, lies inside the
  file, and either ends exactly at a line delimiter or holds no line delimiter at all; in
  the second case it is a full window of \<open>BUFFER_SIZE\<close> bytes or runs to the end of the
  file. As stated the claim fails: of a file of 8193 bytes \<open>a\<close> the first range assigned
  is \<open>(0, 8192)\<close>, its last byte is no line delimiter, and a second range \<open>(8192, 1)\<close>
  is assigned after it.
\<close>

theorem assigned_range_boundary:
  assumes "workers (handle_request inp i s) i = Reporting off bytes"
  shows "off = next_offset_to_assign s \<and>
     next_offset_to_assign (handle_request inp i s) = off + bytes \<and>
     0 < bytes \<and> off + bytes \<le> length inp \<and>
     (inp ! (off + bytes - 1) = NL \<or>
      (NL \<notin> set (take bytes (drop off inp)) \<and>
       (bytes = BUFFER_SIZE \<or> off + bytes = length inp)))"
proof -
  let ?a = "next_offset_to_assign s"
  let ?w = "take BUFFER_SIZE (drop ?a inp)"
  have assigned: "\<not> finished_assignments s \<and> ?w \<noteq> []"
    using assms by (auto simp: handle_request_def send_end_def Let_def split: if_splits)
  then have eq: "handle_request inp i s = s\<lparr>next_offset_to_assign := ?a + assign_bytes ?w,
      workers := (workers s)(i := Reporting ?a (assign_bytes ?w))\<rparr>"
    by (simp add: handle_request_def Let_def)
  have given: "workers (handle_request inp i s) i = Reporting ?a (assign_bytes ?w)"
    unfolding eq by simp
  have "Reporting ?a (assign_bytes ?w) = Reporting off bytes"
    using trans [OF given [symmetric] assms] .
  then have "?a = off \<and> assign_bytes ?w = bytes"
    by (rule worker.inject [THEN iffD1])
  then have off: "off = ?a" and bytes: "bytes = assign_bytes ?w"
    by blast+
  have pos: "0 < bytes" unfolding bytes using assigned by (simp add: assign_bytes_pos)
  have le: "bytes \<le> length ?w" unfolding bytes by (rule assign_bytes_le)
  with pos have inside: "off + bytes \<le> length inp" unfolding off by auto
  have "bytes - 1 < BUFFER_SIZE"
    using pos le by auto
  then have "?w ! (bytes - 1) = drop ?a inp ! (bytes - 1)"
    by (rule nth_take)
  also have "\<dots> = inp ! (?a + (bytes - 1))"
    using inside off by (intro nth_drop) simp
  also have "?a + (bytes - 1) = off + bytes - 1"
    using pos off by simp
  finally have nth: "?w ! (bytes - 1) = inp ! (off + bytes - 1)" .
  from assign_bytes_boundary [of ?w] assigned
  have "?w ! (bytes - 1) = NL \<or> (NL \<notin> set ?w \<and> bytes = length ?w)"
    unfolding bytes by simp
  then have "inp ! (off + bytes - 1) = NL \<or>
      (NL \<notin> set (take bytes (drop off inp)) \<and> (bytes = BUFFER_SIZE \<or> off + bytes = length inp))"
  proof
    assume "?w ! (bytes - 1) = NL"
    with nth show ?thesis by simp
  next
    assume whole: "NL \<notin> set ?w \<and> bytes = length ?w"
    have "take (length ?w) ?w = ?w"
      by (rule take_all) simp
    then have "take (length ?w) (drop ?a inp) = ?w"
      by (simp add: min_def split: if_splits)
    with whole have "take bytes (drop off inp) = ?w"
      unfolding off by metis
    moreover have "bytes = BUFFER_SIZE \<or> off + bytes = length inp"
      using whole pos unfolding off by (auto simp: min_def split: if_splits)
    ultimately show ?thesis using whole by simp
  qed
  with off pos inside eq bytes show ?thesis by simp
qed

theorem assigned_range_boundary_witness:
  "workers (handle_request ''ab\<newline>cd'' 0 (initial 1 :: nat coordinator)) 0 = Reporting 0 3 \<and>
   next_offset_to_assign (handle_request ''ab\<newline>cd'' 0 (initial 1 :: nat coordinator)) = 0 + 3 \<and>
   ''ab\<newline>cd'' ! (0 + 3 - 1) = NL"
proof -
  have assigned: "workers (handle_request ''ab\<newline>cd'' 0 (initial 1 :: nat coordinator)) 0 = Reporting 0 3"
    by code_simp
  have "NL \<in> set (take 3 (drop 0 ''ab\<newline>cd''))"
    by (simp add: NL_def)
  with assigned_range_boundary [OF assigned] assigned show ?thesis
    by (simp add: NL_def)
qed

theorem assigned_range_boundary_counterexample:
  "workers (handle_request (replicate 8193 (CHR ''a'')) 0 (initial 2 :: nat coordinator)) 0 =
     Reporting 0 8192 \<and>
   replicate 8193 (CHR ''a'') ! (0 + 8192 - 1) \<noteq> NL \<and>
   workers (handle_request (replicate 8193 (CHR ''a'')) 1
       (handle_request (replicate 8193 (CHR ''a'')) 0 (initial 2 :: nat coordinator))) 1 =
     Reporting 8192 1"
proof -
  let ?f = "replicate 8193 (CHR ''a'')"
  have first_window: "take BUFFER_SIZE (drop 0 ?f) = replicate 8192 (CHR ''a'')"
    by (simp add: BUFFER_SIZE_def)
  have second_window: "take BUFFER_SIZE (drop 8192 ?f) = replicate 1 (CHR ''a'')"
    by (simp add: BUFFER_SIZE_def)
  have first_bytes: "assign_bytes (replicate 8192 (CHR ''a'')) = 8192"
    by (subst assign_bytes_no_newline) (simp_all add: NL_def)
  have second_bytes: "assign_bytes (replicate 1 (CHR ''a'')) = 1"
    by (subst assign_bytes_no_newline) (simp_all add: NL_def)
  have w1: "workers (handle_request ?f 0 (initial 2 :: nat coordinator)) 0 = Reporting 0 8192"
    and a1: "next_offset_to_assign (handle_request ?f 0 (initial 2 :: nat coordinator)) = 8192"
    and f1: "\<not> finished_assignments (handle_request ?f 0 (initial 2 :: nat coordinator))"
    using first_window first_bytes
    by (simp_all add: handle_request_def initial_def Let_def)
  have w2: "workers (handle_request ?f 1 st) 1 = Reporting 8192 1"
    if "next_offset_to_assign st = 8192" and "\<not> finished_assignments st"
    for st :: "nat coordinator"
    using that second_window second_bytes
    by (simp add: handle_request_def Let_def)
  have "?f ! (0 + 8192 - 1) \<noteq> NL"
    by (simp add: NL_def)
  with w1 w2 [OF a1 f1] show ?thesis
    by blast
qed

subsection \<open>The scenario with the pattern alpha\<close>




subsection \<open>Two runs on the same input\<close>

text \<open>
  C5 (amended). Two complete runs with the same matcher and input file print the same
  bytes, and the data lines the coordinator writes to the log (\<open>write_log_entry\<close>)
  agree, line by line in the same order, in the columns \<open>file_offset\<close>,
  \<open>bytes_read\<close> and \<open>found\<close> (\<open>log_core\<close>), whatever the schedules and numbers
  of workers. As stated the claim fails: the column \<open>process_id\<close> depends on which
  worker asked first, so two runs with equal elapsed times write different data lines.
\<close>

theorem runs_agree:
  assumes "main rx inp n evs = Inr s" and "main rx inp n' evs' = Inr s'"
  shows "stdout s = stdout s' \<and> map log_core (logfile s) = map log_core (logfile s')"
  using main_outcome(1,3) [OF assms(1)] main_outcome(1,3) [OF assms(2)] by simp

theorem runs_agree_witness:
  "\<not> isl (main (\<lambda>p. True) ''ab\<newline>cd'' 2 [(0, 0::nat), (1, 0), (1, 0), (0, 0), (0, 0), (1, 0), (0, 0), (1, 0)]) \<and>
   \<not> isl (main (\<lambda>p. True) ''ab\<newline>cd'' 2 [(1, 0::nat), (0, 0), (1, 0), (0, 0), (0, 0), (1, 0), (0, 0), (1, 0)]) \<and>
   stdout (projr (main (\<lambda>p. True) ''ab\<newline>cd'' 2 [(0, 0::nat), (1, 0), (1, 0), (0, 0), (0, 0), (1, 0), (0, 0), (1, 0)])) =
     stdout (projr (main (\<lambda>p. True) ''ab\<newline>cd'' 2 [(1, 0::nat), (0, 0), (1, 0), (0, 0), (0, 0), (1, 0), (0, 0), (1, 0)])) \<and>
   map log_core (logfile (projr (main (\<lambda>p. True) ''ab\<newline>cd'' 2 [(0, 0::nat), (1, 0), (1, 0), (0, 0), (0, 0), (1, 0), (0, 0), (1, 0)]))) =
     map log_core (logfile (projr (main (\<lambda>p. True) ''ab\<newline>cd'' 2 [(1, 0::nat), (0, 0), (1, 0), (0, 0), (0, 0), (1, 0), (0, 0), (1, 0)])))"
proof -
  obtain s where run: "main (\<lambda>p. True) ''ab\<newline>cd'' 2 [(0, 0::nat), (1, 0), (1, 0), (0, 0), (0, 0), (1, 0), (0, 0), (1, 0)] = Inr s"
    by (rule sample_run_two_workers)
  obtain s' where run': "main (\<lambda>p. True) ''ab\<newline>cd'' 2 [(1, 0::nat), (0, 0), (1, 0), (0, 0), (0, 0), (1, 0), (0, 0), (1, 0)] = Inr s'"
    by (rule sample_run_swapped)
  from runs_agree [OF run run'] show ?thesis
    unfolding run run' by simp
qed

theorem runs_agree_counterexample:
  "\<not> isl (main (\<lambda>p. True) ''ab\<newline>cd'' 2 [(0, 0::nat), (1, 0), (1, 0), (0, 0), (0, 0), (1, 0), (0, 0), (1, 0)]) \<and>
   \<not> isl (main (\<lambda>p. True) ''ab\<newline>cd'' 2 [(1, 0::nat), (0, 0), (1, 0), (0, 0), (0, 0), (1, 0), (0, 0), (1, 0)]) \<and>
   map log_elapsed_time (logfile (projr (main (\<lambda>p. True) ''ab\<newline>cd'' 2 [(0, 0::nat), (1, 0), (1, 0), (0, 0), (0, 0), (1, 0), (0, 0), (1, 0)]))) =
     map log_elapsed_time (logfile (projr (main (\<lambda>p. True) ''ab\<newline>cd'' 2 [(1, 0::nat), (0, 0), (1, 0), (0, 0), (0, 0), (1, 0), (0, 0), (1, 0)]))) \<and>
   logfile (projr (main (\<lambda>p. True) ''ab\<newline>cd'' 2 [(0, 0::nat), (1, 0), (1, 0), (0, 0), (0, 0), (1, 0), (0, 0), (1, 0)])) \<noteq>
     logfile (projr (main (\<lambda>p. True) ''ab\<newline>cd'' 2 [(1, 0::nat), (0, 0), (1, 0), (0, 0), (0, 0), (1, 0), (0, 0), (1, 0)])) \<and>
   map log_process_id (logfile (projr (main (\<lambda>p. True) ''ab\<newline>cd'' 2 [(0, 0::nat), (1, 0), (1, 0), (0, 0), (0, 0), (1, 0), (0, 0), (1, 0)]))) = [0, 1] \<and>
   map log_process_id (logfile (projr (main (\<lambda>p. True) ''ab\<newline>cd'' 2 [(1, 0::nat), (0, 0), (1, 0), (0, 0), (0, 0), (1, 0), (0, 0), (1, 0)]))) = [1, 0]"
proof -
  obtain s where run: "main (\<lambda>p. True) ''ab\<newline>cd'' 2 [(0, 0::nat), (1, 0), (1, 0), (0, 0), (0, 0), (1, 0), (0, 0), (1, 0)] = Inr s"
    and lg: "logfile s = [\<lparr>log_process_id = 0, log_file_offset = 0, log_bytes_read = 3, log_elapsed_time = 0, log_found = False\<rparr>, \<lparr>log_process_id = 1, log_file_offset = 3, log_bytes_read = 2, log_elapsed_time = 0, log_found = False\<rparr>]"
    by (rule sample_run_two_workers)
  obtain s' where run': "main (\<lambda>p. True) ''ab\<newline>cd'' 2 [(1, 0::nat), (0, 0), (1, 0), (0, 0), (0, 0), (1, 0), (0, 0), (1, 0)] = Inr s'"
    and lg': "logfile s' = [\<lparr>log_process_id = 1, log_file_offset = 0, log_bytes_read = 3, log_elapsed_time = 0, log_found = False\<rparr>, \<lparr>log_process_id = 0, log_file_offset = 3, log_bytes_read = 2, log_elapsed_time = 0, log_found = False\<rparr>]"
    by (rule sample_run_swapped)
  show ?thesis
    unfolding run run' by (simp add: lg lg')
qed

subsection \<open>The worker's trimming\<close>

text \<open>
  C6. A worker that read the bytes \<open>buffer\<close> (the bytes at \<open>offset\<close>, at most \<open>bytes\<close>
  of them) reports the whole read when it holds no line delimiter; whatever the trimming
  yields, a result of zero for a read of more than zero bytes is replaced by the length of
  the read; and the report of a non-empty read is never zero bytes.
\<close>

theorem child_process_forward_progress:
  "(NL \<notin> set (take bytes (drop offset file)) \<longrightarrow>
      bytes_read (child_process file ident offset bytes elapsed) =
        length (take bytes (drop offset file)) \<and>
      text_bytes (child_process file ident offset bytes elapsed) = take bytes (drop offset file)) \<and>
   (\<forall>buffer. child_usable buffer =
      forward_progress (trim_to_last_newline buffer) (length buffer)) \<and>
   (\<forall>read_bytes. 0 < read_bytes \<longrightarrow> forward_progress 0 read_bytes = read_bytes) \<and>
   (take bytes (drop offset file) \<noteq> [] \<longrightarrow>
      0 < bytes_read (child_process file ident offset bytes elapsed))"
proof (intro conjI allI impI)
  let ?buffer = "take bytes (drop offset file)"
  assume "NL \<notin> set ?buffer"
  then have whole: "child_usable ?buffer = length ?buffer"
    by (simp add: child_usable_assign_bytes assign_bytes_no_newline)
  have kept: "take (child_usable ?buffer) ?buffer = ?buffer"
    unfolding whole by (rule take_all) simp
  show "bytes_read (child_process file ident offset bytes elapsed) = length ?buffer"
    using whole by (simp add: child_process_def Let_def)
  show "text_bytes (child_process file ident offset bytes elapsed) = ?buffer"
    using kept by (simp add: child_process_def Let_def)
next
  fix buffer
  show "child_usable buffer = forward_progress (trim_to_last_newline buffer) (length buffer)"
    by (simp add: child_usable_def)
next
  fix read_bytes :: nat
  assume "0 < read_bytes"
  then show "forward_progress 0 read_bytes = read_bytes"
    by (simp add: forward_progress_def)
next
  assume "take bytes (drop offset file) \<noteq> []"
  then have "0 < child_usable (take bytes (drop offset file))"
    by (simp add: child_usable_assign_bytes assign_bytes_pos)
  then show "0 < bytes_read (child_process file ident offset bytes elapsed)"
    by (simp add: child_process_def Let_def)
qed

theorem child_process_forward_progress_witness:
  "NL \<notin> set (take 3 (drop 3 ''ab\<newline>cde'')) \<and>
   take 3 (drop 3 ''ab\<newline>cde'') \<noteq> [] \<and>
   bytes_read (child_process ''ab\<newline>cde'' 0 3 3 (0::nat)) = 3 \<and>
   text_bytes (child_process ''ab\<newline>cde'' 0 3 3 (0::nat)) = ''cde'' \<and>
   forward_progress 0 3 = 3"
proof -
  have no_newline: "NL \<notin> set (take 3 (drop 3 ''ab\<newline>cde''))"
    and nonempty: "take 3 (drop 3 ''ab\<newline>cde'') \<noteq> []"
    by (simp_all add: NL_def)
  from child_process_forward_progress [of 3 3 "''ab\<newline>cde''" 0 "0::nat"] no_newline nonempty
  show ?thesis by simp
qed

subsection \<open>The records on standard output\<close>

text \<open>
  C7 (amended). In a complete run on an input file without NUL bytes, standard output is
  the matched records that \<open>process_paragraphs\<close> extracted, each written byte for byte
  and followed by two line delimiters, and then, if the remainder of the carry buffer is
  not empty and matches, the remainder, with one line delimiter added unless it ends with
  one. No extracted record ends with a line delimiter and the remainder does not end with
  two, so the records are followed by exactly two delimiters and the flushed one by
  exactly one. As stated the claim fails on an input with a NUL byte: \<open>printf\<close> writes
  the record \<open>a\0b\<close> as \<open>a\<close>.
\<close>

theorem stdout_records:
  assumes "main rx inp n evs = Inr s" and "NUL \<notin> set inp"
  shows "stdout s =
       concat (map (\<lambda>p. p @ [NL, NL]) (filter rx (tested (process_paragraphs rx inp)))) @
       (if rest (process_paragraphs rx inp) \<noteq> [] \<and> rx (rest (process_paragraphs rx inp))
        then (if last (rest (process_paragraphs rx inp)) = NL
              then rest (process_paragraphs rx inp)
              else rest (process_paragraphs rx inp) @ [NL])
        else []) \<and>
     (\<forall>p \<in> set (tested (process_paragraphs rx inp)). p = [] \<or> last p \<noteq> NL) \<and>
     \<not> (\<exists>x. rest (process_paragraphs rx inp) = x @ [NL, NL])"
proof -
  have "NUL \<notin> set (rest (process_paragraphs rx inp))"
    using process_paragraphs_bytes [of rx inp] assms(2) by auto
  then have flushed: "printed (flush_remaining_paragraph rx (rest (process_paragraphs rx inp))) =
       (if rest (process_paragraphs rx inp) \<noteq> [] \<and> rx (rest (process_paragraphs rx inp))
        then (if last (rest (process_paragraphs rx inp)) = NL
              then rest (process_paragraphs rx inp)
              else rest (process_paragraphs rx inp) @ [NL])
        else [])"
    by (rule flush_printed_plain)
  have "stdout s =
       concat (map (\<lambda>p. p @ [NL, NL]) (filter rx (tested (process_paragraphs rx inp)))) @
       (if rest (process_paragraphs rx inp) \<noteq> [] \<and> rx (rest (process_paragraphs rx inp))
        then (if last (rest (process_paragraphs rx inp)) = NL
              then rest (process_paragraphs rx inp)
              else rest (process_paragraphs rx inp) @ [NL])
        else [])"
    unfolding main_outcome(1) [OF assms(1)] flushed
      process_paragraphs_printed_plain [OF assms(2)] ..
  moreover note process_paragraphs_tested_shape [of rx inp]
  moreover have "\<not> (\<exists>x. rest (process_paragraphs rx inp) = x @ [NL, NL])"
    by (rule settled_no_blank_line_end) (rule process_paragraphs_rest_settled)
  ultimately show ?thesis by blast
qed

theorem stdout_records_witness:
  "\<not> isl (main (\<lambda>p. True) ''a\<newline>\<newline>b'' 1 [(0, 0::nat), (0, 0), (0, 0), (0, 0), (0, 0), (0, 0)]) \<and>
   NUL \<notin> set ''a\<newline>\<newline>b'' \<and>
   tested (process_paragraphs (\<lambda>p. True) ''a\<newline>\<newline>b'') = [''a''] \<and>
   rest (process_paragraphs (\<lambda>p. True) ''a\<newline>\<newline>b'') = ''b'' \<and>
   stdout (projr (main (\<lambda>p. True) ''a\<newline>\<newline>b'' 1 [(0, 0::nat), (0, 0), (0, 0), (0, 0), (0, 0), (0, 0)])) = ''a'' @ [NL, NL] @ ''b'' @ [NL] \<and>
   last ''a'' \<noteq> NL"
proof -
  obtain s where run: "main (\<lambda>p. True) ''a\<newline>\<newline>b'' 1 [(0, 0::nat), (0, 0), (0, 0), (0, 0), (0, 0), (0, 0)] = Inr s"
    by (rule sample_run_two_records)
  have text_file: "NUL \<notin> set ''a\<newline>\<newline>b''"
    by (simp add: NUL_def)
  have found_at: "find_double_newline ''a\<newline>\<newline>b'' = Some 1"
    by (simp add: NL_def)
  have pp: "tested (process_paragraphs (\<lambda>p. True) ''a\<newline>\<newline>b'') = [''a'']"
    "rest (process_paragraphs (\<lambda>p. True) ''a\<newline>\<newline>b'') = ''b''"
    by (simp_all add: process_paragraphs_Some [OF found_at] process_paragraphs_None)
  from stdout_records [OF run text_file] pp
  have "stdout s = ''a'' @ [NL, NL] @ ''b'' @ [NL] \<and> last ''a'' \<noteq> NL"
    by (simp add: NL_def)
  with text_file pp show ?thesis
    unfolding run by simp
qed

theorem stdout_records_counterexample:
  "\<not> isl (main (\<lambda>p. True) [CHR ''a'', CHR 0x00, CHR ''b'', CHR 0x0A, CHR 0x0A] 1 [(0, 0::nat), (0, 0), (0, 0), (0, 0)]) \<and>
   candidates (projr (main (\<lambda>p. True) [CHR ''a'', CHR 0x00, CHR ''b'', CHR 0x0A, CHR 0x0A] 1 [(0, 0::nat), (0, 0), (0, 0), (0, 0)])) = [[CHR ''a'', CHR 0x00, CHR ''b'']] \<and>
   stdout (projr (main (\<lambda>p. True) [CHR ''a'', CHR 0x00, CHR ''b'', CHR 0x0A, CHR 0x0A] 1 [(0, 0::nat), (0, 0), (0, 0), (0, 0)])) = [CHR ''a'', CHR 0x0A, CHR 0x0A] \<and>
   stdout (projr (main (\<lambda>p. True) [CHR ''a'', CHR 0x00, CHR ''b'', CHR 0x0A, CHR 0x0A] 1 [(0, 0::nat), (0, 0), (0, 0), (0, 0)])) \<noteq> [CHR ''a'', CHR 0x00, CHR ''b''] @ [CHR 0x0A, CHR 0x0A]"
proof -
  obtain s where run: "main (\<lambda>p. True) [CHR ''a'', CHR 0x00, CHR ''b'', CHR 0x0A, CHR 0x0A] 1 [(0, 0::nat), (0, 0), (0, 0), (0, 0)] = Inr s"
    and out: "stdout s = [CHR ''a'', CHR 0x0A, CHR 0x0A]"
    and cands: "candidates s = [[CHR ''a'', CHR 0x00, CHR ''b'']]"
    by (rule sample_run_nul)
  show ?thesis
    unfolding run by (simp add: out cands)
qed

subsection \<open>The two cursors\<close>

text \<open>
  C8. In every state \<open>s\<close> of the dispatch loop of every run,
  \<open>next_offset_to_process \<le> next_offset_to_assign\<close>; reading any message decreases
  neither cursor; \<open>next_offset_to_assign\<close> changes only when the message is a request and
  the requesting worker is handed the range that starts at the old value and ends at the
  new one; \<open>next_offset_to_process\<close> changes only when the message is a result and a
  chunk was consumed (a log line was written). The cursor counts the bytes folded into the
  carry buffer: the buffer is what extraction leaves of the bytes of the file before
  \<open>next_offset_to_process\<close>, and whenever a message, or the final drain, moves the
  cursor from \<open>p\<close> to \<open>p'\<close>, the bytes of the file from \<open>p\<close> to \<open>p'\<close> have been
  appended to the carry buffer and extracted; \<open>consume_chunk\<close>, the one place that
  assigns the cursor, appends the text of the chunk to the buffer. The final drain does
  not decrease \<open>next_offset_to_process\<close>, and the order of the cursors holds after it
  and the terminal flush.
\<close>

theorem cursors_ordered_and_monotone:
  assumes "reachable inp rx (s :: 't coordinator)"
  shows "next_offset_to_process s \<le> next_offset_to_assign s \<and>
     next_offset_to_assign s \<le> next_offset_to_assign (handle_message inp rx ev s) \<and>
     next_offset_to_process s \<le> next_offset_to_process (handle_message inp rx ev s) \<and>
     (next_offset_to_assign (handle_message inp rx ev s) \<noteq> next_offset_to_assign s \<longrightarrow>
        workers s (fst ev) = Requesting \<and>
        workers (handle_message inp rx ev s) (fst ev) =
          Reporting (next_offset_to_assign s)
            (next_offset_to_assign (handle_message inp rx ev s) - next_offset_to_assign s)) \<and>
     (next_offset_to_process (handle_message inp rx ev s) \<noteq> next_offset_to_process s \<longrightarrow>
        (\<exists>off b. workers s (fst ev) = Reporting off b) \<and>
        length (logfile s) < length (logfile (handle_message inp rx ev s))) \<and>
     carry s = rest (process_paragraphs rx (take (next_offset_to_process s) inp)) \<and>
     carry (handle_message inp rx ev s) =
       rest (process_paragraphs rx
         (carry s @
          take (next_offset_to_process (handle_message inp rx ev s) - next_offset_to_process s)
            (drop (next_offset_to_process s) inp))) \<and>
     carry (drain_ready rx s) =
       rest (process_paragraphs rx
         (carry s @
          take (next_offset_to_process (drain_ready rx s) - next_offset_to_process s)
            (drop (next_offset_to_process s) inp))) \<and>
     (\<forall>c st. next_offset_to_process (consume_chunk rx c (st :: 't coordinator)) =
          file_offset c + bytes_read c \<and>
        carry (consume_chunk rx c st) =
          rest (process_paragraphs rx (carry st @ text_bytes c))) \<and>
     next_offset_to_process s \<le> next_offset_to_process (drain_ready rx s) \<and>
     next_offset_to_process (terminal_flush rx (drain_ready rx s))
       \<le> next_offset_to_assign (terminal_flush rx (drain_ready rx s))"
proof -
  from reachable_coherent [OF assms] obtain consumed inflight upcoming
    where coh: "coherent inp rx consumed inflight upcoming s" by blast
  have ordered: "next_offset_to_process s' \<le> next_offset_to_assign s'"
    if "coherent inp rx c1 c2 c3 s'" for c1 c2 c3 and s' :: "'t coordinator"
    using that by (simp add: coherent_def cursors_ok_def)
  have a: "next_offset_to_process s \<le> next_offset_to_assign s"
    using coh by (rule ordered)
  let ?s' = "handle_message inp rx ev s"
  have b: "next_offset_to_assign s \<le> next_offset_to_assign ?s' \<and>
      next_offset_to_process s \<le> next_offset_to_process ?s' \<and>
      (next_offset_to_assign ?s' \<noteq> next_offset_to_assign s \<longrightarrow>
         workers s (fst ev) = Requesting \<and>
         workers ?s' (fst ev) =
           Reporting (next_offset_to_assign s) (next_offset_to_assign ?s' - next_offset_to_assign s)) \<and>
      (next_offset_to_process ?s' \<noteq> next_offset_to_process s \<longrightarrow>
         (\<exists>off b. workers s (fst ev) = Reporting off b) \<and>
         length (logfile s) < length (logfile ?s'))"
  proof (cases "workers s (fst ev)")
    case Requesting
    then show ?thesis
      by (simp add: handle_message_def handle_request_def send_end_def Let_def)
  next
    case (Reporting off b)
    let ?s1 = "s\<lparr>pending_chunks := insert_chunk_sorted (pending_chunks s)
          (child_process inp (fst ev) off b (snd ev)),
        workers := (workers s)(fst ev := Requesting)\<rparr>"
    have eq: "?s' = drain_ready rx ?s1"
      using Reporting by (simp add: handle_message_def handle_result_def Let_def)
    from drain_ready_cursors [of ?s1 rx] show ?thesis
      unfolding eq using Reporting by simp
  next
    case Exiting
    then show ?thesis by (simp add: handle_message_def handle_eof_def)
  next
    case Gone
    then show ?thesis by (simp add: handle_message_def)
  next
    case Blocked
    then show ?thesis by (simp add: handle_message_def)
  qed
  have c: "next_offset_to_process s \<le> next_offset_to_process (drain_ready rx s)"
    using drain_ready_cursors by blast
  from coherent_drain_ready [OF coh] obtain c1 c2
    where coh_d: "coherent inp rx c1 c2 upcoming (drain_ready rx s)" by blast
  then have "next_offset_to_process (drain_ready rx s) \<le> next_offset_to_assign (drain_ready rx s)"
    by (rule ordered)
  then have d: "next_offset_to_process (terminal_flush rx (drain_ready rx s))
      \<le> next_offset_to_assign (terminal_flush rx (drain_ready rx s))"
    by (simp add: terminal_flush_def Let_def)
  have e: "carry s = rest (process_paragraphs rx (take (next_offset_to_process s) inp))"
    using coh by (rule coherent_carry)
  from reachable_handle_message_coherent [OF assms, of ev] obtain d1 d2 d3
    where "coherent inp rx d1 d2 d3 ?s'" by blast
  then have "carry ?s' = rest (process_paragraphs rx (take (next_offset_to_process ?s') inp))"
    by (rule coherent_carry)
  with e have f: "carry ?s' = rest (process_paragraphs rx
      (carry s @ take (next_offset_to_process ?s' - next_offset_to_process s)
         (drop (next_offset_to_process s) inp)))"
    using b by (intro carry_folded) simp_all
  have "carry (drain_ready rx s) =
      rest (process_paragraphs rx (take (next_offset_to_process (drain_ready rx s)) inp))"
    using coh_d by (rule coherent_carry)
  with e have g: "carry (drain_ready rx s) = rest (process_paragraphs rx
      (carry s @ take (next_offset_to_process (drain_ready rx s) - next_offset_to_process s)
         (drop (next_offset_to_process s) inp)))"
    using c by (intro carry_folded) simp_all
  have h: "\<forall>c st. next_offset_to_process (consume_chunk rx c (st :: 't coordinator)) =
        file_offset c + bytes_read c \<and>
      carry (consume_chunk rx c st) = rest (process_paragraphs rx (carry st @ text_bytes c))"
    by (simp add: consume_chunk_carry consume_chunk_frame)
  from a b c d e f g h show ?thesis by blast
qed

theorem cursors_ordered_and_monotone_witness:
  "reachable ''ab\<newline>cd'' (\<lambda>p. True) (initial 1 :: nat coordinator) \<and>
   next_offset_to_process (initial 1 :: nat coordinator) \<le> next_offset_to_assign (initial 1 :: nat coordinator) \<and>
   next_offset_to_assign (handle_message ''ab\<newline>cd'' (\<lambda>p. True) (0, 0) (initial 1 :: nat coordinator)) \<noteq>
     next_offset_to_assign (initial 1 :: nat coordinator) \<and>
   workers (initial 1 :: nat coordinator) 0 = Requesting \<and>
   workers (handle_message ''ab\<newline>cd'' (\<lambda>p. True) (0, 0) (initial 1 :: nat coordinator)) 0 = Reporting 0 3 \<and>
   reachable ''ab\<newline>cd'' (\<lambda>p. True) (handle_message ''ab\<newline>cd'' (\<lambda>p. True) (0, 0) (initial 1 :: nat coordinator)) \<and>
   next_offset_to_process (handle_message ''ab\<newline>cd'' (\<lambda>p. True) (0, 0)
       (handle_message ''ab\<newline>cd'' (\<lambda>p. True) (0, 0) (initial 1 :: nat coordinator))) \<noteq>
     next_offset_to_process (handle_message ''ab\<newline>cd'' (\<lambda>p. True) (0, 0) (initial 1 :: nat coordinator)) \<and>
   length (logfile (handle_message ''ab\<newline>cd'' (\<lambda>p. True) (0, 0) (initial 1 :: nat coordinator))) <
     length (logfile (handle_message ''ab\<newline>cd'' (\<lambda>p. True) (0, 0)
       (handle_message ''ab\<newline>cd'' (\<lambda>p. True) (0, 0) (initial 1 :: nat coordinator)))) \<and>
   carry (handle_message ''ab\<newline>cd'' (\<lambda>p. True) (0, 0) (initial 1 :: nat coordinator)) = [] \<and>
   take (3 - 0) (drop 0 ''ab\<newline>cd'') = ''ab\<newline>'' \<and>
   carry (handle_message ''ab\<newline>cd'' (\<lambda>p. True) (0, 0)
       (handle_message ''ab\<newline>cd'' (\<lambda>p. True) (0, 0) (initial 1 :: nat coordinator))) =
     rest (process_paragraphs (\<lambda>p. True) ([] @ ''ab\<newline>'')) \<and>
   rest (process_paragraphs (\<lambda>p. True) ([] @ ''ab\<newline>'')) = ''ab\<newline>''"
proof -
  let ?s0 = "initial 1 :: nat coordinator"
  let ?s1 = "handle_message ''ab\<newline>cd'' (\<lambda>p. True) (0, 0) ?s0"
  let ?s2 = "handle_message ''ab\<newline>cd'' (\<lambda>p. True) (0, 0) ?s1"
  have start: "reachable ''ab\<newline>cd'' (\<lambda>p. True) ?s0"
    by (rule reachable.start) (simp_all add: MAX_PROCESSES_def)
  have "loop_continues ?s0" "readable (0, 0) ?s0"
    by code_simp+
  with start have next_state: "reachable ''ab\<newline>cd'' (\<lambda>p. True) ?s1"
    by (rule reachable.step)
  have moved: "next_offset_to_assign ?s1 = 3" "next_offset_to_assign ?s0 = 0"
    "workers ?s0 0 = Requesting" "next_offset_to_process ?s1 = 0"
    "next_offset_to_process ?s2 = 3"
    by code_simp+
  from cursors_ordered_and_monotone [OF start, of "(0, 0)"] moved
  have a: "next_offset_to_process ?s0 \<le> next_offset_to_assign ?s0"
    and b: "workers ?s1 0 = Reporting 0 3"
    by simp_all
  have buffers: "carry ?s1 = []" "take (3 - 0) (drop 0 ''ab\<newline>cd'') = ''ab\<newline>''"
    "rest (process_paragraphs (\<lambda>p. True) ([] @ ''ab\<newline>'')) = ''ab\<newline>''"
    by code_simp+
  from cursors_ordered_and_monotone [OF next_state, of "(0, 0)"] moved
  have c: "length (logfile ?s1) < length (logfile ?s2)"
    and d: "carry ?s2 = rest (process_paragraphs (\<lambda>p. True)
        (carry ?s1 @ take (3 - 0) (drop 0 ''ab\<newline>cd'')))"
    by simp_all
  from d have e: "carry ?s2 = rest (process_paragraphs (\<lambda>p. True) ([] @ ''ab\<newline>''))"
    by (simp only: buffers)
  from start next_state a b c e buffers moved show ?thesis
    by simp
qed

subsection \<open>One log line per chunk, none for the flush\<close>

text \<open>
  C9. In a complete run the log has one data line per assigned range, with the offsets and
  byte counts of the ranges in file order; some found flag is set iff some record that
  \<open>process_paragraphs\<close> extracted matches; standard output is what
  \<open>process_paragraphs\<close> printed followed by what the terminal flush printed; and the
  terminal flush writes no log line. So a match of the flush alone is printed and sets no
  found flag.
\<close>

theorem log_lines_per_chunk:
  assumes "main rx inp n evs = Inr s"
  shows "length (logfile s) = length (assignments inp 0) \<and>
     map (\<lambda>e. (log_file_offset e, log_bytes_read e)) (logfile s) = assignments inp 0 \<and>
     ((\<exists>e \<in> set (logfile s). log_found e) \<longleftrightarrow>
        (\<exists>p \<in> set (tested (process_paragraphs rx inp)). rx (c_str p))) \<and>
     stdout s = printed (process_paragraphs rx inp) @
        printed (flush_remaining_paragraph rx (rest (process_paragraphs rx inp))) \<and>
     (\<forall>st :: 'a coordinator. logfile (terminal_flush rx st) = logfile st)"
proof -
  note out = main_outcome [OF assms]
  let ?A = "assignments inp 0"
  have len: "length (logfile s) = length ?A"
    using arg_cong [OF out(3), of length] sequential_log_length [of rx inp ?A] by simp
  have "map (\<lambda>e. (fst e, fst (snd e))) (map log_core (logfile s)) = ?A"
    unfolding out(3) by (rule sequential_log_ranges)
  then have ranges: "map (\<lambda>e. (log_file_offset e, log_bytes_read e)) (logfile s) = ?A"
    by (simp add: log_core_def comp_def)
  have "0 + total ?A = length inp"
    by (rule assignments_total) simp
  then have whole: "take (total ?A) inp = inp" by simp
  have cand: "out_candidates (sequential rx inp ?A) = tested (process_paragraphs rx inp)"
    using sequential_whole [OF assignments_tiled, where rx = rx and inp = inp] whole by simp
  have "(\<exists>e \<in> set (logfile s). log_found e) \<longleftrightarrow>
      (\<exists>e \<in> set (map log_core (logfile s)). snd (snd e))"
    by (auto simp: log_core_def)
  also have "\<dots> \<longleftrightarrow> (\<exists>p \<in> set (tested (process_paragraphs rx inp)). rx (c_str p))"
    unfolding out(3) sequential_found cand ..
  finally have found: "(\<exists>e \<in> set (logfile s). log_found e) \<longleftrightarrow>
      (\<exists>p \<in> set (tested (process_paragraphs rx inp)). rx (c_str p))" .
  have flush: "\<forall>st :: 'a coordinator. logfile (terminal_flush rx st) = logfile st"
    by (simp add: terminal_flush_def Let_def)
  from len ranges found out(1) flush show ?thesis by blast
qed

theorem log_lines_per_chunk_witness:
  "\<not> isl (main (literal_word_match ''alpha'') ''alpha'' 1 [(0, 0::nat), (0, 0), (0, 0), (0, 0)]) \<and>
   length (logfile (projr (main (literal_word_match ''alpha'') ''alpha'' 1 [(0, 0::nat), (0, 0), (0, 0), (0, 0)]))) = 1 \<and>
   assignments ''alpha'' 0 = [(0, 5)] \<and>
   \<not> log_found (hd (logfile (projr (main (literal_word_match ''alpha'') ''alpha'' 1 [(0, 0::nat), (0, 0), (0, 0), (0, 0)])))) \<and>
   tested (process_paragraphs (literal_word_match ''alpha'') ''alpha'') = [] \<and>
   stdout (projr (main (literal_word_match ''alpha'') ''alpha'' 1 [(0, 0::nat), (0, 0), (0, 0), (0, 0)])) = ''alpha\<newline>''"
proof -
  obtain s where run: "main (literal_word_match ''alpha'') ''alpha'' 1 [(0, 0::nat), (0, 0), (0, 0), (0, 0)] = Inr s"
    and lg: "logfile s = [\<lparr>log_process_id = 0, log_file_offset = 0, log_bytes_read = 5, log_elapsed_time = 0, log_found = False\<rparr>]"
    and out: "stdout s = ''alpha\<newline>''"
    by (rule sample_run_flush)
  have none: "tested (process_paragraphs (literal_word_match ''alpha'') ''alpha'') = []"
    by code_simp
  from log_lines_per_chunk [OF run]
  have "map (\<lambda>e. (log_file_offset e, log_bytes_read e)) (logfile s) = assignments ''alpha'' 0"
    by blast
  then have "[(0, 5)] = assignments ''alpha'' 0"
    unfolding lg by simp
  then have "assignments ''alpha'' 0 = [(0, 5)]"
    by (rule sym)
  with lg out none show ?thesis
    unfolding run by simp
qed

subsection \<open>Termination of the record extractor\<close>

text \<open>
  C10. \<open>process_paragraphs\<close> is a total function (its recursion is accepted with the
  length of the carry buffer as measure). Each iteration that finds a delimiter pair
  removes at least two bytes from the buffer, and the number of such iterations (one
  tested span each) is at most half the length of the buffer the loop started with.
\<close>

theorem process_paragraphs_iterations:
  "(\<forall>i. find_double_newline cb = Some i \<longrightarrow>
        length (string_buffer_consume cb (i + 2)) + 2 \<le> length cb) \<and>
   2 * length (tested (process_paragraphs rx cb)) + length (rest (process_paragraphs rx cb))
     \<le> length cb \<and>
   length (tested (process_paragraphs rx cb)) \<le> length cb div 2"
proof (intro conjI allI impI)
  fix i
  assume "find_double_newline cb = Some i"
  then have "i + 2 \<le> length cb"
    by (rule find_double_newline_le)
  then show "length (string_buffer_consume cb (i + 2)) + 2 \<le> length cb"
    by (simp add: string_buffer_consume_drop)
next
  show bound: "2 * length (tested (process_paragraphs rx cb)) +
      length (rest (process_paragraphs rx cb)) \<le> length cb"
    by (rule process_paragraphs_length)
  then show "length (tested (process_paragraphs rx cb)) \<le> length cb div 2"
    by linarith
qed

theorem process_paragraphs_iterations_witness:
  "find_double_newline ''a\<newline>\<newline>bc\<newline>\<newline>d'' = Some 1 \<and>
   length (string_buffer_consume ''a\<newline>\<newline>bc\<newline>\<newline>d'' (1 + 2)) + 2 \<le> length ''a\<newline>\<newline>bc\<newline>\<newline>d'' \<and>
   length (tested (process_paragraphs (\<lambda>p. True) ''a\<newline>\<newline>bc\<newline>\<newline>d'')) \<le> 4"
proof -
  have found_at: "find_double_newline ''a\<newline>\<newline>bc\<newline>\<newline>d'' = Some 1"
    by (simp add: NL_def)
  from process_paragraphs_iterations [of "''a\<newline>\<newline>bc\<newline>\<newline>d''" "\<lambda>p. True"] found_at
  show ?thesis by simp
qed

end
